theory Spec2Isabelle
  imports Complex_Main "HOL-Library.Monad_Syntax"
begin

section \<open>Endless runner: collision kernel, level generator and per-tick update\<close>

text \<open>
  A shallow embedding of the simulation core of \<^verbatim>\<open>endless_runner.js\<close>: the rectangle
  helpers, \<^verbatim>\<open>collideVerticalSweep\<close>, \<^verbatim>\<open>newRunState\<close>, \<^verbatim>\<open>spawnChunk\<close>,
  \<^verbatim>\<open>ensureGenerationAhead\<close>, \<^verbatim>\<open>cleanupLists\<close>, \<^verbatim>\<open>awardMoneyAndSave\<close>,
  \<^verbatim>\<open>updateBestScore\<close> and \<^verbatim>\<open>playUpdate\<close>.

  JavaScript numbers are IEEE binary64. Where the program floors or compares a computed
  position, distance or amount (the rectangle tests, the vertical sweep, the hazard block of
  the generator, the coin multiplier and the payout) every arithmetic operation is rounded
  with \<open>f64\<close>, round to nearest, ties to even, on 53 bits. The speed, the velocity, the
  timers, the camera and the score accumulate as exact reals: there the program differs from
  the model by the rounding of a continuous quantity. The exponent range, infinities and NaN
  are not represented. \<^verbatim>\<open>Math.floor\<close> is \<open>\<lfloor>_\<rfloor>\<close>. The counters \<^verbatim>\<open>coins_run\<close>, \<^verbatim>\<open>score\<close> and
  \<^verbatim>\<open>best_score\<close>, which move by whole steps far below \<open>2\<^sup>5\<^sup>3\<close>, are integers. Objects mutated in place (\<^verbatim>\<open>RUN\<close>, \<^verbatim>\<open>SAVE\<close>, the player rectangle) are records
  passed in and returned updated. Drawing, particles, screen shake and the squash and stretch
  values only feed the renderer and are left out; the calls to the sound effects are kept
  as a log, because they mark which branch of the update ran.
\<close>

subsection \<open>Constants and helpers\<close>

definition GAME_W :: real where "GAME_W = 960"
definition GAME_H :: real where "GAME_H = 540"
definition WIDTH :: real where "WIDTH = GAME_W"
definition HEIGHT :: real where "HEIGHT = GAME_H"

definition clamp :: "real \<Rightarrow> real \<Rightarrow> real \<Rightarrow> real" where
  "clamp v a b = (if v < a then a else if v > b then b else v)"

subsection \<open>Numbers\<close>

text \<open>Rounding to the nearest integer, a tie going to the even neighbour.\<close>

definition rne :: "real \<Rightarrow> int" where
  "rne v = (let f = \<lfloor>v\<rfloor>; d = v - of_int f
            in if d < 1 / 2 then f else if 1 / 2 < d then f + 1 else if even f then f else f + 1)"

text \<open>
  The binary64 number nearest to a real: with \<open>2\<^sup>e \<le> \<bar>v\<bar> < 2\<^sup>e\<^sup>+\<^sup>1\<close> the result is the multiple
  of \<open>2\<^sup>e\<^sup>-\<^sup>5\<^sup>2\<close> nearest to \<open>v\<close>. A decimal literal of the source, as \<^verbatim>\<open>0.70\<close>, denotes
  \<open>f64 0.70\<close>; whole numbers up to \<open>2\<^sup>5\<^sup>3\<close> denote themselves.
\<close>

definition f64 :: "real \<Rightarrow> real" where
  "f64 v = (if v = 0 then 0
            else of_int (rne (v / 2 powi (\<lfloor>log 2 \<bar>v\<bar>\<rfloor> - 52))) * 2 powi (\<lfloor>log 2 \<bar>v\<bar>\<rfloor> - 52))"

subsection \<open>Rect helpers\<close>

record rect =
  x :: real
  y :: real
  w :: real
  h :: real

definition rect :: "real \<Rightarrow> real \<Rightarrow> real \<Rightarrow> real \<Rightarrow> rect" where
  "rect x0 y0 w0 h0 = \<lparr>x = x0, y = y0, w = w0, h = h0\<rparr>"

definition centerx :: "rect \<Rightarrow> real" where
  "centerx r = x r + w r / 2"

definition centery :: "rect \<Rightarrow> real" where
  "centery r = y r + h r / 2"

definition colliderect :: "rect \<Rightarrow> rect \<Rightarrow> bool" where
  "colliderect a b \<longleftrightarrow>
     x a < f64 (x b + w b) \<and> f64 (x a + w a) > x b \<and> y a < f64 (y b + h b) \<and> f64 (y a + h a) > y b"

subsection \<open>Collision: vertical sweep\<close>

record sweep_result =
  pyFloat :: real
  landed :: bool
  bumped :: bool

text \<open>
  The body of the \<^verbatim>\<open>for (let s = 0; s < steps; s++)\<close> loop; the first argument counts the
  iterations that remain. The player rectangle is mutated by the source, so it is returned
  next to the result object.
\<close>

fun sweepSteps :: "nat \<Rightarrow> real \<Rightarrow> rect \<Rightarrow> real \<Rightarrow> rect list \<Rightarrow> rect \<times> sweep_result" where
  "sweepSteps 0 step pl pyf ps = (pl, \<lparr>pyFloat = pyf, landed = False, bumped = False\<rparr>)"
| "sweepSteps (Suc n) step pl pyf ps =
     (let prevTop = y pl;
          prevBottom = f64 (y pl + h pl);
          pyf' = f64 (pyf + step);
          pl' = pl\<lparr>y := of_int \<lfloor>pyf'\<rfloor>\<rparr>
      in if step > 0 then
           (case find (\<lambda>p. colliderect pl' p \<and> prevBottom \<le> y p) ps of
              Some p \<Rightarrow> (pl'\<lparr>y := f64 (y p - h pl')\<rparr>,
                         \<lparr>pyFloat = f64 (y p - h pl'), landed = True, bumped = False\<rparr>)
            | None \<Rightarrow> sweepSteps n step pl' pyf' ps)
         else
           (case find (\<lambda>p. colliderect pl' p \<and> prevTop \<ge> f64 (y p + h p)) ps of
              Some p \<Rightarrow> (pl'\<lparr>y := f64 (y p + h p)\<rparr>,
                         \<lparr>pyFloat = f64 (y p + h p), landed = False, bumped = True\<rparr>)
            | None \<Rightarrow> sweepSteps n step pl' pyf' ps))"

definition collideVerticalSweep :: "rect \<Rightarrow> real \<Rightarrow> real \<Rightarrow> rect list \<Rightarrow> rect \<times> sweep_result" where
  "collideVerticalSweep pl pyf dy ps =
     (if dy = 0 then (pl, \<lparr>pyFloat = pyf, landed = False, bumped = False\<rparr>)
      else
        let steps = nat (\<lfloor>f64 (\<bar>dy\<bar> / 6)\<rfloor> + 1);
            step = f64 (dy / real steps)
        in sweepSteps steps step pl pyf ps)"

subsection \<open>Modes / game constants\<close>

datatype mode = MODE_MENU | MODE_PLAY | MODE_SHOP | MODE_SETTINGS | MODE_DEAD

definition GROUND_H :: real where "GROUND_H = 80"
definition GROUND_Y :: real where "GROUND_Y = HEIGHT - GROUND_H"

definition JUMP_CUT_MULT :: real where "JUMP_CUT_MULT = 0.55"

definition BASE_SPEED :: real where "BASE_SPEED = 320"
definition MAX_SPEED :: real where "MAX_SPEED = 820"
definition SPEED_RAMP :: real where "SPEED_RAMP = 7"

definition GRAVITY :: real where "GRAVITY = 2100"
definition BASE_JUMP_V :: real where "BASE_JUMP_V = 880"
definition MAX_FALL_V :: real where "MAX_FALL_V = 1500"

definition BASE_COYOTE :: real where "BASE_COYOTE = 0.10"
definition BASE_JUMP_BUF :: real where "BASE_JUMP_BUF = 0.12"

definition MIN_GAP :: real where "MIN_GAP = 150"
definition MAX_GAP :: real where "MAX_GAP = 340"

definition PLATFORM_MIN_W :: real where "PLATFORM_MIN_W = 160"
definition PLATFORM_MAX_W :: real where "PLATFORM_MAX_W = 380"
definition PLATFORM_MIN_H :: real where "PLATFORM_MIN_H = 18"
definition PLATFORM_MAX_H :: real where "PLATFORM_MAX_H = 28"

definition HEIGHT_LEVELS :: "real list" where "HEIGHT_LEVELS = [0, 70, 120, 170]"

definition MIN_REACTION_T :: real where "MIN_REACTION_T = f64 0.60"
definition MAX_REACTION_T :: real where "MAX_REACTION_T = 1.00"
definition MIN_HAZARD_SEP_T :: real where "MIN_HAZARD_SEP_T = f64 0.70"

definition HAZARD_CHANCE :: real where "HAZARD_CHANCE = 0.52"
definition COIN_CHANCE :: real where "COIN_CHANCE = 0.62"

subsection \<open>Save data, run state and the ambient state\<close>

text \<open>The levels of \<^verbatim>\<open>SAVE.upgrades\<close>: \<^verbatim>\<open>jump\<close>, \<^verbatim>\<open>coyote\<close>, \<^verbatim>\<open>coin_mult\<close>, \<^verbatim>\<open>magnet\<close>.\<close>

record upgrades =
  up_jump :: nat
  up_coyote :: nat
  up_coin_mult :: nat
  up_magnet :: nat

record save_data =
  money :: real
  best_score :: int
  upgrades :: upgrades

definition defaultSaveData :: save_data where
  "defaultSaveData =
     \<lparr>money = 0, best_score = 0,
      upgrades = \<lparr>up_jump = 0, up_coyote = 0, up_coin_mult = 0, up_magnet = 0\<rparr>\<rparr>"

record run_params =
  jumpV :: real
  coyoteT :: real
  coinMul :: real
  magnetPx :: real

definition runParamsFromUpgrades :: "save_data \<Rightarrow> run_params" where
  "runParamsFromUpgrades sv =
     (let u = upgrades sv
      in \<lparr>jumpV = BASE_JUMP_V + 50 * real (up_jump u),
          coyoteT = BASE_COYOTE + 0.02 * real (up_coyote u),
          coinMul = f64 (1 + f64 (f64 0.20 * real (up_coin_mult u))),
          magnetPx = 0 + 26 * real (up_magnet u)\<rparr>)"

record run_state =
  cam_x :: real
  speed :: real
  score :: int
  score_f :: real
  coins_run :: int
  player :: rect
  py :: real
  vy :: real
  on_ground :: bool
  coyote :: real
  jump_buf :: real
  jump_v :: real
  coyote_t :: real
  coin_mul :: real
  magnet_px :: real
  platforms :: "rect list"
  hazards :: "rect list"
  coins_list :: "rect list"
  next_spawn_x :: real
  last_platform_top :: real
  last_hazard_x :: real
  jump_cut :: bool
  jump_time :: real

definition newRunState :: "save_data \<Rightarrow> run_state" where
  "newRunState sv =
     (let prm = runParamsFromUpgrades sv;
          s = \<lparr>cam_x = 0, speed = BASE_SPEED, score = 0, score_f = 0, coins_run = 0,
               player = rect 160 (GROUND_Y - 58) 44 58, py = GROUND_Y - 58, vy = 0,
               on_ground = True, coyote = 0, jump_buf = 0,
               jump_v = jumpV prm, coyote_t = coyoteT prm, coin_mul = coinMul prm,
               magnet_px = magnetPx prm,
               platforms = [], hazards = [], coins_list = [],
               next_spawn_x = 0, last_platform_top = GROUND_Y, last_hazard_x = - 10000000,
               jump_cut = False, jump_time = 0\<rparr>;
          starter = rect 0 (GROUND_Y - 24) (WIDTH + 1200) 24
      in s\<lparr>platforms := platforms s @ [starter],
           next_spawn_x := x starter + w starter + 140,
           last_platform_top := y starter\<rparr>)"

datatype sfx = SfxClick | SfxJump | SfxCoin | SfxDead

text \<open>
  The globals the update reads and writes: \<^verbatim>\<open>RUN\<close>, \<^verbatim>\<open>SAVE\<close>, \<^verbatim>\<open>mode\<close>, \<^verbatim>\<open>paused\<close>, the
  host's random source and the sound effects played so far. \<^verbatim>\<open>Math.random()\<close> is the next
  element of a sequence, \<open>rand_src\<close> read at \<open>rand_pos\<close>; the host promises a value in
  \<open>[0, 1)\<close>, which is the predicate \<open>rand_ok\<close>.
\<close>

record game =
  RUN :: run_state
  SAVE :: save_data
  mode :: mode
  paused :: bool
  rand_src :: "nat \<Rightarrow> real"
  rand_pos :: nat
  sfx_log :: "sfx list"

definition rand_ok :: "game \<Rightarrow> bool" where
  "rand_ok g \<longleftrightarrow> (\<forall>i. 0 \<le> rand_src g i \<and> rand_src g i < 1)"

definition Math_random :: "game \<Rightarrow> real \<times> game" where
  "Math_random g = (rand_src g (rand_pos g), g\<lparr>rand_pos := Suc (rand_pos g)\<rparr>)"

definition randi :: "real \<Rightarrow> real \<Rightarrow> game \<Rightarrow> real \<times> game" where
  "randi a b g = (case Math_random g of (u, g') \<Rightarrow> (a + of_int \<lfloor>u * (b - a + 1)\<rfloor>, g'))"

definition Math_trunc :: "real \<Rightarrow> real" where
  "Math_trunc v = (if v \<ge> 0 then of_int \<lfloor>v\<rfloor> else of_int \<lceil>v\<rceil>)"

text \<open>
  \<^verbatim>\<open>xs[i]\<close> for a number \<open>i\<close>: the element when \<open>i\<close> is a whole number within the array,
  \<^verbatim>\<open>undefined\<close> (here \<open>None\<close>) otherwise.
\<close>

definition js_index :: "'a list \<Rightarrow> real \<Rightarrow> 'a option" where
  "js_index xs i =
     (if 0 \<le> i \<and> i < real (length xs) \<and> i = of_int \<lfloor>i\<rfloor> then Some (xs ! nat \<lfloor>i\<rfloor>) else None)"

subsection \<open>Level generator\<close>

text \<open>The \<^verbatim>\<open>HEIGHT_LEVELS.reduce\<close> of \<^verbatim>\<open>spawnChunk\<close>: the level whose top is nearest to \<open>prevTop\<close>.\<close>

definition prevLevelOf :: "real \<Rightarrow> real" where
  "prevLevelOf prevTop =
     foldl (\<lambda>best lvl.
        let candTop = (GROUND_Y - 24) - lvl;
            bestTop = (GROUND_Y - 24) - best
        in if \<bar>candTop - prevTop\<bar> < \<bar>bestTop - prevTop\<bar> then lvl else best)
       (HEIGHT_LEVELS ! 0) HEIGHT_LEVELS"

text \<open>The hazard block of \<^verbatim>\<open>spawnChunk\<close> (\<^verbatim>\<open>if (Math.random() < hazChance) { ... }\<close>).\<close>

definition chunkHazard :: "real \<Rightarrow> real \<Rightarrow> real \<Rightarrow> rect \<Rightarrow> game \<Rightarrow> game" where
  "chunkHazard spd camX x0 platform g =
     (let hazChance = (if spd > 650 then HAZARD_CHANCE * 0.78 else HAZARD_CHANCE);
          (u, g1) = Math_random g
      in if u < hazChance then
           (let (hzW, g2) = randi 30 68 g1;
                (hzH, g3) = randi 32 62 g2;
                reactionPxMin = of_int \<lfloor>f64 (spd * MIN_REACTION_T)\<rfloor>;
                reactionPxMax = of_int \<lfloor>f64 (spd * MAX_REACTION_T)\<rfloor>;
                (hx0, g4) = randi (of_int \<lfloor>f64 (x0 - reactionPxMax)\<rfloor>)
                                  (of_int \<lfloor>f64 (x0 - reactionPxMin)\<rfloor>) g3;
                hx1 = max (of_int \<lfloor>f64 (f64 (camX + WIDTH) + 70)\<rfloor>) hx0;
                minSepPx = of_int \<lfloor>f64 (spd * MIN_HAZARD_SEP_T)\<rfloor>;
                hx2 = (if f64 (hx1 - last_hazard_x (RUN g4)) < minSepPx
                       then f64 (last_hazard_x (RUN g4) + minSepPx) else hx1);
                hx3 = clamp hx2 (x platform) (f64 (f64 (x platform + w platform) - hzW));
                spikeBottom = f64 (y platform + 2)
            in g4\<lparr>RUN := (RUN g4)
                 \<lparr>last_hazard_x := hx2,
                  hazards := hazards (RUN g4) @
                    [rect (of_int \<lfloor>hx3\<rfloor>) (of_int \<lfloor>f64 (spikeBottom - hzH)\<rfloor>)
                          (of_int \<lfloor>hzW\<rfloor>) (of_int \<lfloor>hzH\<rfloor>)]\<rparr>\<rparr>)
         else g1)"

text \<open>The coin block of \<^verbatim>\<open>spawnChunk\<close> (\<^verbatim>\<open>if (Math.random() < COIN_CHANCE) { ... }\<close>).\<close>

definition chunkCoins :: "rect \<Rightarrow> game \<Rightarrow> game" where
  "chunkCoins platform g =
     (let (u, g1) = Math_random g
      in if u < COIN_CHANCE then
           (let (n, g2) = randi 3 7 g1;
                (off, g3) = randi 20 (max 20 (w platform - 20)) g2;
                baseX = x platform + off;
                baseY = y platform - 54;
                (u2, g4) = Math_random g3;
                arc = (u2 < 0.55);
                coin = (\<lambda>i. let cx = baseX + real i * 34;
                                cy = (if arc
                                      then baseY - of_int \<lfloor>18 * sin ((real i / max 1 (n - 1)) * pi)\<rfloor>
                                      else baseY)
                            in rect (of_int \<lfloor>cx\<rfloor>) (of_int \<lfloor>cy\<rfloor>) 18 18)
            in g4\<lparr>RUN := (RUN g4)\<lparr>coins_list := coins_list (RUN g4) @ map coin [0..<nat \<lceil>n\<rceil>]\<rparr>\<rparr>)
         else g1)"

text \<open>
  The platform block of \<^verbatim>\<open>spawnChunk\<close>, from \<^verbatim>\<open>const w = randi(...)\<close> to
  \<^verbatim>\<open>RUN.platforms.push(platform)\<close>; it yields the new platform. The only partial step is
  the read \<^verbatim>\<open>candidates[randi(...)]\<close>: outside the array JavaScript yields \<^verbatim>\<open>undefined\<close>
  and the chunk is built from NaN, which the model reports as \<open>None\<close>.
\<close>

definition chunkPlatform :: "game \<Rightarrow> (rect \<times> game) option" where
  "chunkPlatform g =
     (let spd = speed (RUN g);
          x0 = next_spawn_x (RUN g);
          (w0, g1) = randi PLATFORM_MIN_W PLATFORM_MAX_W g;
          (h0, g2) = randi PLATFORM_MIN_H PLATFORM_MAX_H g1;
          prevTop = last_platform_top (RUN g2);
          prevLevel = prevLevelOf prevTop;
          extra = (if spd > 520 then 3 else 2);
          candidates = HEIGHT_LEVELS @ replicate extra prevLevel;
          (i, g3) = randi 0 (real (length candidates) - 1) g2
      in case js_index candidates i of
           None \<Rightarrow> None
         | Some lvl \<Rightarrow>
           (let topY0 = (GROUND_Y - 24) - lvl;
                maxStep = (if spd < 520 then 170 else 125);
                topY = (if \<bar>topY0 - prevTop\<bar> > maxStep
                        then (if topY0 > prevTop then prevTop + maxStep else prevTop - maxStep)
                        else topY0);
                platform = rect (of_int \<lfloor>x0\<rfloor>) (of_int \<lfloor>topY\<rfloor>) (of_int \<lfloor>w0\<rfloor>) (of_int \<lfloor>h0\<rfloor>)
            in Some (platform, g3\<lparr>RUN := (RUN g3)\<lparr>platforms := platforms (RUN g3) @ [platform]\<rparr>\<rparr>)))"

text \<open>\<^verbatim>\<open>spawnChunk\<close>: the platform, hazard and coin blocks, then the new frontier.\<close>

definition spawnChunk :: "game \<Rightarrow> game option" where
  "spawnChunk g =
     (let camX = cam_x (RUN g);
          spd = speed (RUN g);
          x0 = next_spawn_x (RUN g)
      in case chunkPlatform g of
           None \<Rightarrow> None
         | Some (platform, g4) \<Rightarrow>
           (let g5 = chunkHazard spd camX x0 platform g4;
                g6 = chunkCoins platform g5;
                (gap, g7) = randi MIN_GAP MAX_GAP g6
            in Some (g7\<lparr>RUN := (RUN g7)
                      \<lparr>next_spawn_x := x platform + w platform + gap,
                       last_platform_top := y platform\<rparr>\<rparr>)))"

text \<open>
  The \<^verbatim>\<open>while (RUN.next_spawn_x < camX + WIDTH * 2.2) spawnChunk();\<close> of
  \<^verbatim>\<open>ensureGenerationAhead\<close>, with \<open>camX\<close> read once before the loop. A loop that does not
  end has the value \<open>None\<close>.
\<close>

partial_function (option) generationLoop :: "real \<Rightarrow> game \<Rightarrow> game option" where
  "generationLoop camX g =
     (if next_spawn_x (RUN g) < camX + WIDTH * 2.2
      then Option.bind (spawnChunk g) (generationLoop camX)
      else Some g)"

definition ensureGenerationAhead :: "game \<Rightarrow> game option" where
  "ensureGenerationAhead g = generationLoop (cam_x (RUN g)) g"

definition cleanupLists :: "run_state \<Rightarrow> run_state" where
  "cleanupLists r =
     (let camX = cam_x r;
          keep = (\<lambda>q. (x q + w q) \<ge> (camX - 280))
      in r\<lparr>platforms := filter keep (platforms r),
           hazards := filter keep (hazards r),
           coins_list := filter keep (coins_list r)\<rparr>)"

definition resetRun :: "game \<Rightarrow> game option" where
  "resetRun g = ensureGenerationAhead (g\<lparr>RUN := newRunState (SAVE g)\<rparr>)"

text \<open>Writing the save to local storage (\<^verbatim>\<open>saveSave\<close>) changes nothing the update reads.\<close>

definition awardMoneyAndSave :: "game \<Rightarrow> game" where
  "awardMoneyAndSave g =
     (let sv1 = (SAVE g)\<lparr>money := f64 (money (SAVE g)
                    + of_int \<lfloor>f64 (real_of_int (coins_run (RUN g)) * coin_mul (RUN g))\<rfloor>)\<rparr>;
          sv2 = sv1\<lparr>best_score := max (best_score sv1) (score (RUN g))\<rparr>
      in g\<lparr>SAVE := sv2\<rparr>)"

definition updateBestScore :: "bool \<Rightarrow> game \<Rightarrow> game" where
  "updateBestScore saveNow g =
     g\<lparr>SAVE := (SAVE g)\<lparr>best_score := max (best_score (SAVE g)) (score (RUN g))\<rparr>\<rparr>"

subsection \<open>Play update\<close>

text \<open>
  \<^verbatim>\<open>playUpdate\<close> is one function in the source; its blocks are named here in the order in
  which the function runs them.
\<close>

text \<open>\<^verbatim>\<open>clamp(RUN.speed + SPEED_RAMP * dt, BASE_SPEED, MAX_SPEED)\<close>\<close>

definition rampSpeed :: "real \<Rightarrow> real \<Rightarrow> real" where
  "rampSpeed spd dt = clamp (spd + SPEED_RAMP * dt) BASE_SPEED MAX_SPEED"

definition tickSpeedScore :: "real \<Rightarrow> run_state \<Rightarrow> run_state" where
  "tickSpeedScore dt r =
     (let r1 = r\<lparr>speed := rampSpeed (speed r) dt\<rparr>;
          r2 = r1\<lparr>score_f := score_f r1 + speed r1 * dt * 0.02\<rparr>
      in r2\<lparr>score := \<lfloor>score_f r2\<rfloor>\<rparr>)"

text \<open>Jump buffer, coyote time and \<^verbatim>\<open>jump_time\<close>.\<close>

definition tickTimers :: "real \<Rightarrow> bool \<Rightarrow> run_state \<Rightarrow> run_state" where
  "tickTimers dt jumpPressed r =
     (let r1 = (if jumpPressed then r\<lparr>jump_buf := BASE_JUMP_BUF\<rparr>
                else r\<lparr>jump_buf := max 0 (jump_buf r - dt)\<rparr>);
          r2 = (if on_ground r1 then r1\<lparr>coyote := coyote_t r1, jump_cut := False\<rparr>
                else r1\<lparr>coyote := max 0 (coyote r1 - dt)\<rparr>)
      in if \<not> on_ground r2 then r2\<lparr>jump_time := jump_time r2 + dt\<rparr>
         else r2\<lparr>jump_time := 0\<rparr>)"

text \<open>\<^verbatim>\<open>// apply buffered jump\<close>\<close>

definition applyBufferedJump :: "game \<Rightarrow> game" where
  "applyBufferedJump g =
     (if jump_buf (RUN g) > 0 \<and> coyote (RUN g) > 0
      then g\<lparr>RUN := (RUN g)\<lparr>vy := - jump_v (RUN g), on_ground := False, coyote := 0,
                             jump_buf := 0, jump_cut := False, jump_time := 0\<rparr>,
             sfx_log := sfx_log g @ [SfxJump]\<rparr>
      else g)"

definition tickGravity :: "real \<Rightarrow> run_state \<Rightarrow> run_state" where
  "tickGravity dt r = r\<lparr>vy := clamp (vy r + GRAVITY * dt) (- 5000) MAX_FALL_V\<rparr>"

text \<open>\<^verbatim>\<open>// jump cut\<close>\<close>

definition tickJumpCut :: "bool \<Rightarrow> run_state \<Rightarrow> run_state" where
  "tickJumpCut jumpReleased r =
     (if jumpReleased \<and> (\<not> on_ground r) \<and> (\<not> jump_cut r) \<and> (vy r < 0)
      then r\<lparr>vy := vy r * JUMP_CUT_MULT, jump_cut := True\<rparr>
      else r)"

text \<open>The player is pinned to the camera, swept vertically, then held by the ground line.\<close>

definition tickVertical :: "real \<Rightarrow> run_state \<Rightarrow> run_state" where
  "tickVertical dt r =
     (let pl0 = (player r)\<lparr>x := of_int \<lfloor>f64 (cam_x r + 160)\<rfloor>\<rparr>;
          dy = f64 (vy r * dt);
          prevOnGround = on_ground r;
          (pl1, sweep) = collideVerticalSweep pl0 (py r) dy (platforms r);
          r1 = r\<lparr>player := pl1, on_ground := False, py := pyFloat sweep\<rparr>
      in if f64 (y pl1 + h pl1) \<ge> GROUND_Y then
           (if vy r1 > 0
            then r1\<lparr>player := pl1\<lparr>y := f64 (GROUND_Y - h pl1)\<rparr>, py := f64 (GROUND_Y - h pl1),
                    vy := 0, on_ground := True\<rparr>
            else r1)
         else if landed sweep then r1\<lparr>vy := 0, on_ground := True\<rparr>
         else r1)"

text \<open>\<^verbatim>\<open>// magnet pull\<close>\<close>

definition tickMagnet :: "real \<Rightarrow> run_state \<Rightarrow> run_state" where
  "tickMagnet dt r =
     (let magnetPx = magnet_px r;
          pl = player r
      in if magnetPx > 0 then
           r\<lparr>coins_list := map (\<lambda>c.
               let dx = centerx pl - centerx c;
                   dyc = centery pl - centery c;
                   dist = sqrt (dx * dx + dyc * dyc)
               in if 0.1 < dist \<and> dist < magnetPx then
                    (let pull = (magnetPx - dist) / magnetPx
                     in c\<lparr>x := x c + Math_trunc (dx * pull * dt * 2.8),
                          y := y c + Math_trunc (dyc * pull * dt * 2.8)\<rparr>)
                  else c) (coins_list r)\<rparr>
         else r)"

text \<open>\<^verbatim>\<open>// coin collect\<close>: every coin that overlaps the player is counted, played and removed.\<close>

definition tickCoins :: "game \<Rightarrow> game" where
  "tickCoins g =
     (let r = RUN g;
          pl = player r;
          collected = filter (colliderect pl) (coins_list r)
      in g\<lparr>RUN := r\<lparr>coins_run := coins_run r + int (length collected),
                     coins_list := filter (\<lambda>c. \<not> colliderect pl c) (coins_list r)\<rparr>,
           sfx_log := sfx_log g @ replicate (length collected) SfxCoin\<rparr>)"

text \<open>\<^verbatim>\<open>// hazard collide\<close>: the loop returns from \<^verbatim>\<open>playUpdate\<close> at the first hazard that overlaps.\<close>

definition tickHazards :: "game \<Rightarrow> game" where
  "tickHazards g =
     (case find (colliderect (player (RUN g))) (hazards (RUN g)) of
        Some hz \<Rightarrow>
          (let g1 = awardMoneyAndSave g;
               g2 = updateBestScore True g1
           in g2\<lparr>sfx_log := sfx_log g2 @ [SfxDead], mode := MODE_DEAD\<rparr>)
      | None \<Rightarrow> g)"

text \<open>
  The first part of the update, from the speed ramp to the jump cut: the rules that read the
  input edges and set \<open>vy\<close>.
\<close>

definition tickKinematics :: "real \<Rightarrow> bool \<Rightarrow> bool \<Rightarrow> game \<Rightarrow> game" where
  "tickKinematics dt jumpPressed jumpReleased g =
     (let g1 = g\<lparr>RUN := tickSpeedScore dt (RUN g)\<rparr>;
          g2 = updateBestScore False g1;
          g3 = g2\<lparr>RUN := tickTimers dt jumpPressed (RUN g2)\<rparr>;
          g4 = applyBufferedJump g3
      in g4\<lparr>RUN := tickJumpCut jumpReleased (tickGravity dt (RUN g4))\<rparr>)"

text \<open>\<^verbatim>\<open>RUN.cam_x += RUN.speed * dt\<close>\<close>

definition advanceCamera :: "real \<Rightarrow> run_state \<Rightarrow> run_state" where
  "advanceCamera dt r = r\<lparr>cam_x := cam_x r + speed r * dt\<rparr>"

text \<open>The update up to and including coin collection, that is everything before the hazard loop.\<close>

definition playUpdateBody :: "real \<Rightarrow> bool \<Rightarrow> bool \<Rightarrow> bool \<Rightarrow> game \<Rightarrow> game option" where
  "playUpdateBody dt jumpPressed jumpHeld jumpReleased g =
     (let g5 = tickKinematics dt jumpPressed jumpReleased g;
          g7 = g5\<lparr>RUN := advanceCamera dt (tickVertical dt (RUN g5))\<rparr>
      in Option.bind (ensureGenerationAhead g7)
           (\<lambda>g8. Some (tickCoins (g8\<lparr>RUN := tickMagnet dt (cleanupLists (RUN g8))\<rparr>))))"

definition playUpdate :: "real \<Rightarrow> bool \<Rightarrow> bool \<Rightarrow> bool \<Rightarrow> game \<Rightarrow> game option" where
  "playUpdate dt jumpPressed jumpHeld jumpReleased g =
     map_option tickHazards (playUpdateBody dt jumpPressed jumpHeld jumpReleased g)"


text \<open>
  A run of ticks: \<^verbatim>\<open>playUpdate\<close> called once per input \<open>(dt, jumpPressed, jumpHeld,
  jumpReleased)\<close>, as \<^verbatim>\<open>frame\<close> does while the game is in play mode.
\<close>

type_synonym tick_input = "real \<times> bool \<times> bool \<times> bool"

fun runTicks :: "game \<Rightarrow> tick_input list \<Rightarrow> game option" where
  "runTicks g [] = Some g"
| "runTicks g ((dt, jumpPressed, jumpHeld, jumpReleased) # ins) =
     Option.bind (playUpdate dt jumpPressed jumpHeld jumpReleased g) (\<lambda>g'. runTicks g' ins)"

subsection \<open>Auxiliary notions for the proofs\<close>

text \<open>The fields of \<^verbatim>\<open>RUN\<close> that drive the player and the camera.\<close>

definition same_kinematics :: "run_state \<Rightarrow> run_state \<Rightarrow> bool" where
  "same_kinematics r r' \<longleftrightarrow>
     cam_x r' = cam_x r \<and> speed r' = speed r \<and> score r' = score r \<and> score_f r' = score_f r
     \<and> player r' = player r \<and> py r' = py r \<and> vy r' = vy r \<and> on_ground r' = on_ground r
     \<and> coyote r' = coyote r \<and> jump_buf r' = jump_buf r \<and> jump_v r' = jump_v r
     \<and> coyote_t r' = coyote_t r \<and> coin_mul r' = coin_mul r \<and> magnet_px r' = magnet_px r
     \<and> jump_cut r' = jump_cut r \<and> jump_time r' = jump_time r"

text \<open>
  What the level generator leaves alone: it writes the three lists, the frontier, the last
  platform top, the last hazard position and the position in the random sequence.
\<close>

definition outside_generator :: "game \<Rightarrow> game \<Rightarrow> bool" where
  "outside_generator g g' \<longleftrightarrow>
     same_kinematics (RUN g) (RUN g') \<and> coins_run (RUN g') = coins_run (RUN g)
     \<and> SAVE g' = SAVE g \<and> mode g' = mode g \<and> paused g' = paused g
     \<and> rand_src g' = rand_src g \<and> sfx_log g' = sfx_log g"


definition sweepCount :: "real \<Rightarrow> nat" where
  "sweepCount dy = nat (\<lfloor>f64 (\<bar>dy\<bar> / 6)\<rfloor> + 1)"


text \<open>
  A whole number of pixels within \<open>2\<^sup>5\<^sup>0\<close>: sums and differences of a few such numbers are
  exact in binary64. Every rectangle of a run has whole coordinates.
\<close>

definition whole :: "real \<Rightarrow> bool" where
  "whole v \<longleftrightarrow> v \<in> \<int> \<and> \<bar>v\<bar> \<le> 2 ^ 50"

definition whole_rect :: "rect \<Rightarrow> bool" where
  "whole_rect r \<longleftrightarrow> whole (x r) \<and> whole (y r) \<and> whole (w r) \<and> whole (h r)"

text \<open>The horizontal half of the overlap test, on whole coordinates.\<close>

definition overlaps_x :: "rect \<Rightarrow> rect \<Rightarrow> bool" where
  "overlaps_x a b \<longleftrightarrow> x a < x b + w b \<and> x a + w a > x b"

text \<open>
  What every state of a run has: the rectangle of the player sits at the floor of \<^verbatim>\<open>RUN.py\<close>
  and is 44 by 58; the platforms have whole coordinates, are at least 18 high, lie in the order
  of the list with at least 140 between one and the next, and end at least 140 before the spawn
  frontier, which is a whole number.
\<close>

definition run_inv :: "run_state \<Rightarrow> bool" where
  "run_inv r \<longleftrightarrow>
     y (player r) = of_int \<lfloor>py r\<rfloor> \<and> w (player r) = 44 \<and> h (player r) = 58
     \<and> (\<forall>p\<in>set (platforms r). x p \<in> \<int> \<and> y p \<in> \<int> \<and> w p \<in> \<int> \<and> h p \<in> \<int> \<and> 18 \<le> h p
            \<and> x p + w p + 140 \<le> next_spawn_x r)
     \<and> sorted_wrt (\<lambda>p q. x p + w p + 140 \<le> x q) (platforms r)
     \<and> next_spawn_x r \<in> \<int>"

text \<open>The player is off the ground before each tick of the run.\<close>

fun staysAirborne :: "game \<Rightarrow> tick_input list \<Rightarrow> bool" where
  "staysAirborne g [] = True"
| "staysAirborne g ((dt, jumpPressed, jumpHeld, jumpReleased) # ins) =
     (\<not> on_ground (RUN g) \<and>
      (case playUpdate dt jumpPressed jumpHeld jumpReleased g of
         None \<Rightarrow> True
       | Some g' \<Rightarrow> staysAirborne g' ins))"

text \<open>The same input without its jump-release edge.\<close>

fun noRelease :: "tick_input \<Rightarrow> tick_input" where
  "noRelease (dt, jumpPressed, jumpHeld, jumpReleased) = (dt, jumpPressed, jumpHeld, False)"


subsection \<open>Example states\<close>

text \<open>A game just reset with the default save, in play mode, over a given random sequence.\<close>

definition freshGame :: "(nat \<Rightarrow> real) \<Rightarrow> game" where
  "freshGame src =
     \<lparr>RUN = newRunState defaultSaveData, SAVE = defaultSaveData, mode = MODE_PLAY,
      paused = False, rand_src = src, rand_pos = 0, sfx_log = []\<rparr>"


text \<open>
  A run about to end: money in the save, coins collected in the run, a level of the coin
  multiplier, and a hazard standing where the player is.
\<close>

definition deathGame :: "real \<Rightarrow> int \<Rightarrow> nat \<Rightarrow> game" where
  "deathGame mny n lvl =
     (let sv = defaultSaveData\<lparr>money := mny, best_score := 5,
                 upgrades := \<lparr>up_jump = 0, up_coyote = 0, up_coin_mult = lvl, up_magnet = 0\<rparr>\<rparr>
      in \<lparr>RUN = (newRunState sv)\<lparr>hazards := [rect 170 420 30 40], coins_run := n\<rparr>,
          SAVE = sv, mode = MODE_PLAY, paused = False, rand_src = (\<lambda>i. 0), rand_pos = 0,
          sfx_log = []\<rparr>)"

text \<open>A fresh game whose jump buffer and coyote timer are set by hand.\<close>

definition jumpDemo :: "real \<Rightarrow> real \<Rightarrow> game" where
  "jumpDemo buf coy =
     (freshGame (\<lambda>i. 0))\<lparr>RUN := (newRunState defaultSaveData)\<lparr>jump_buf := buf, coyote := coy\<rparr>\<rparr>"

text \<open>The player in the air, moving up, as one tick after a jump from the ground.\<close>

definition risingGame :: game where
  "risingGame =
     (freshGame (\<lambda>i. 0))\<lparr>RUN := (newRunState defaultSaveData)
        \<lparr>player := rect 160 380 44 58, py := 380, vy := - 845, on_ground := False\<rparr>\<rparr>"

subsection \<open>Properties of the rounding\<close>

text \<open>
  \<open>f64\<close> is odd, monotone and idempotent, keeps the sign, and leaves whole numbers up to
  \<open>2\<^sup>5\<^sup>3\<close> as they are; \<open>f64_eval\<close> computes it once the binade of the argument is known.
\<close>

lemma rne_of_int [simp]: "rne (of_int n) = n"
  by (simp add: rne_def)

lemma rne_bounds: "\<lfloor>v\<rfloor> \<le> rne v" "rne v \<le> \<lfloor>v\<rfloor> + 1"
  by (auto simp: rne_def Let_def)

lemma rne_mono:
  assumes "a \<le> b"
  shows "rne a \<le> rne b"
proof (cases "\<lfloor>a\<rfloor> < \<lfloor>b\<rfloor>")
  case True
  have "rne a \<le> \<lfloor>a\<rfloor> + 1" by (rule rne_bounds)
  also have "\<dots> \<le> \<lfloor>b\<rfloor>" using True by simp
  also have "\<dots> \<le> rne b" by (rule rne_bounds)
  finally show ?thesis .
next
  case False
  with assms have eq: "\<lfloor>a\<rfloor> = \<lfloor>b\<rfloor>" by (simp add: floor_mono order_antisym not_less)
  with assms show ?thesis by (auto simp: rne_def Let_def)
qed

lemma rne_minus: "rne (- a) = - rne a"
proof (cases "a \<in> \<int>")
  case True
  then obtain n where "a = of_int n" by (auto simp: Ints_def)
  then have "- a = of_int (- n)" by simp
  then show ?thesis unfolding \<open>a = of_int n\<close> by (simp only: rne_of_int)
next
  case False
  then have "a \<noteq> of_int \<lfloor>a\<rfloor>" by (metis Ints_of_int)
  then have fl: "\<lfloor>- a\<rfloor> = - \<lfloor>a\<rfloor> - 1"
    by (simp add: floor_minus ceiling_altdef)
  have "even (- \<lfloor>a\<rfloor> - 1) \<longleftrightarrow> odd \<lfloor>a\<rfloor>" by simp
  then show ?thesis
    unfolding rne_def Let_def fl by (auto simp: field_simps)
qed

lemma powr_powi: "2 powr real_of_int k = (2::real) powi k"
  by (rule powr_real_of_int') simp_all

lemma powi2_less_iff: "(2::real) powi m < 2 powi n \<longleftrightarrow> m < n"
proof
  assume a: "(2::real) powi m < 2 powi n"
  show "m < n"
  proof (rule ccontr)
    assume "\<not> m < n"
    then have "n \<le> m" by simp
    then have "(2::real) powi n \<le> 2 powi m" by (intro power_int_increasing) simp_all
    with a show False by simp
  qed
next
  assume "m < n"
  then show "(2::real) powi m < 2 powi n" by (intro power_int_strict_increasing) simp_all
qed

lemma powi2_le_iff: "(2::real) powi m \<le> 2 powi n \<longleftrightarrow> m \<le> n"
  using powi2_less_iff [of n m] by (simp add: not_less [symmetric])

lemma binade:
  assumes "v \<noteq> 0"
  shows "2 powi \<lfloor>log 2 \<bar>v\<bar>\<rfloor> \<le> \<bar>v\<bar>" and "\<bar>v\<bar> < 2 powi (\<lfloor>log 2 \<bar>v\<bar>\<rfloor> + 1)"
proof -
  from assms have pos: "0 < \<bar>v\<bar>" by simp
  have "2 powr (real_of_int \<lfloor>log 2 \<bar>v\<bar>\<rfloor>) \<le> \<bar>v\<bar> \<and> \<bar>v\<bar> < 2 powr (real_of_int (\<lfloor>log 2 \<bar>v\<bar>\<rfloor> + 1))"
    using floor_log_eq_powr_iff [OF pos, of 2 "\<lfloor>log 2 \<bar>v\<bar>\<rfloor>"] by simp
  then show "2 powi \<lfloor>log 2 \<bar>v\<bar>\<rfloor> \<le> \<bar>v\<bar>" and "\<bar>v\<bar> < 2 powi (\<lfloor>log 2 \<bar>v\<bar>\<rfloor> + 1)"
    by (simp_all only: powr_powi)
qed

lemma binade_unique:
  assumes "2 powi e \<le> \<bar>v\<bar>" and "\<bar>v\<bar> < 2 powi (e + 1)"
  shows "\<lfloor>log 2 \<bar>v\<bar>\<rfloor> = e"
proof -
  have "0 < (2::real) powi e" by simp
  with assms(1) have pos: "0 < \<bar>v\<bar>" by linarith
  have "2 powr (real_of_int e) \<le> \<bar>v\<bar> \<and> \<bar>v\<bar> < 2 powr (real_of_int (e + 1))"
    using assms by (simp only: powr_powi)
  then show ?thesis
    using floor_log_eq_powr_iff [OF pos, of 2 e] by simp
qed

lemma f64_eval:
  assumes "2 powi e \<le> \<bar>v\<bar>" and "\<bar>v\<bar> < 2 powi (e + 1)"
  shows "f64 v = of_int (rne (v / 2 powi (e - 52))) * 2 powi (e - 52)"
proof -
  have "0 < (2::real) powi e" by simp
  with assms(1) have "0 < \<bar>v\<bar>" by linarith
  then have "v \<noteq> 0" by simp
  then show ?thesis by (simp add: f64_def binade_unique [OF assms])
qed

lemma f64_0 [simp]: "f64 0 = 0"
  by (simp add: f64_def)

lemma f64_minus: "f64 (- v) = - f64 v"
  by (simp add: f64_def rne_minus)

lemma f64_pos_bounds:
  assumes "0 < v"
  shows "2 powi \<lfloor>log 2 v\<rfloor> \<le> f64 v" and "f64 v \<le> 2 powi (\<lfloor>log 2 v\<rfloor> + 1)"
proof -
  define e where "e = \<lfloor>log 2 v\<rfloor>"
  define u :: real where "u = 2 powi (e - 52)"
  have upos: "0 < u" by (simp add: u_def)
  from assms have nz: "v \<noteq> 0" and av: "\<bar>v\<bar> = v" by simp_all
  from binade [OF nz] have b: "2 powi e \<le> v" "v < 2 powi (e + 1)" by (simp_all add: av e_def)
  have f: "f64 v = of_int (rne (v / u)) * u"
    using nz by (simp add: f64_def av e_def u_def)
  have lo: "2 powi e = of_int (2 ^ 52) * u"
    by (simp add: u_def power_int_diff)
  have hi: "2 powi (e + 1) = of_int (2 ^ 53) * u"
    by (simp add: u_def power_int_diff power_int_add)
  have "of_int (2 ^ 52) \<le> v / u" using b(1) upos by (simp add: lo pos_le_divide_eq)
  from rne_mono [OF this] have "(2 ^ 52 :: int) \<le> rne (v / u)" by (simp only: rne_of_int)
  then have "of_int (2 ^ 52) \<le> (of_int (rne (v / u)) :: real)" by (simp only: of_int_le_iff)
  then show "2 powi \<lfloor>log 2 v\<rfloor> \<le> f64 v"
    unfolding f lo e_def [symmetric] using upos by (simp only: mult_le_cancel_right_pos)
  have "v / u \<le> of_int (2 ^ 53)" using b(2) upos by (simp add: hi pos_divide_le_eq)
  from rne_mono [OF this] have "rne (v / u) \<le> (2 ^ 53 :: int)" by (simp only: rne_of_int)
  then have "(of_int (rne (v / u)) :: real) \<le> of_int (2 ^ 53)" by (simp only: of_int_le_iff)
  then show "f64 v \<le> 2 powi (\<lfloor>log 2 v\<rfloor> + 1)"
    unfolding f hi e_def [symmetric] using upos by (simp only: mult_le_cancel_right_pos)
qed

lemma f64_pos: "0 < v \<Longrightarrow> 0 < f64 v"
proof -
  assume "0 < v"
  have "0 < (2::real) powi \<lfloor>log 2 v\<rfloor>" by simp
  with f64_pos_bounds(1) [OF \<open>0 < v\<close>] show ?thesis by linarith
qed

lemma f64_neg: "v < 0 \<Longrightarrow> f64 v < 0"
  using f64_pos [of "- v"] by (simp add: f64_minus)

lemma f64_sign: "(0 < f64 v) = (0 < v)"
proof -
  consider "0 < v" | "v = 0" | "v < 0" by linarith
  then show ?thesis
  proof cases
    case 1 then show ?thesis by (simp add: f64_pos)
  next
    case 2 then show ?thesis by simp
  next
    case 3
    from f64_neg [OF this] 3 show ?thesis by simp
  qed
qed

lemma f64_mono_pos:
  assumes "0 < a" and "a \<le> b"
  shows "f64 a \<le> f64 b"
proof -
  from assms have bpos: "0 < b" by simp
  have le: "\<lfloor>log 2 a\<rfloor> \<le> \<lfloor>log 2 b\<rfloor>"
    using assms by (intro floor_mono) simp
  show ?thesis
  proof (cases "\<lfloor>log 2 a\<rfloor> = \<lfloor>log 2 b\<rfloor>")
    case True
    define u :: real where "u = 2 powi (\<lfloor>log 2 b\<rfloor> - 52)"
    have upos: "0 < u" by (simp add: u_def)
    have fa: "f64 a = of_int (rne (a / u)) * u" using assms(1) by (simp add: f64_def True u_def)
    have fb: "f64 b = of_int (rne (b / u)) * u" using bpos by (simp add: f64_def u_def)
    have "a / u \<le> b / u" using assms(2) upos by (simp add: divide_right_mono)
    from rne_mono [OF this] show ?thesis
      unfolding fa fb using upos by simp
  next
    case False
    with le have "\<lfloor>log 2 a\<rfloor> + 1 \<le> \<lfloor>log 2 b\<rfloor>" by simp
    then have "(2::real) powi (\<lfloor>log 2 a\<rfloor> + 1) \<le> 2 powi \<lfloor>log 2 b\<rfloor>"
      by (intro power_int_increasing) simp_all
    with f64_pos_bounds(2) [OF assms(1)] f64_pos_bounds(1) [OF bpos] show ?thesis by linarith
  qed
qed

lemma f64_mono:
  assumes "a \<le> b"
  shows "f64 a \<le> f64 b"
proof -
  consider "0 < a" | "a \<le> 0" "0 \<le> b" | "b < 0" using assms by linarith
  then show ?thesis
  proof cases
    case 1
    then show ?thesis using assms by (rule f64_mono_pos)
  next
    case 2
    have "f64 a \<le> 0" using 2(1) f64_neg [of a] by (cases "a = 0") auto
    moreover have "0 \<le> f64 b" using 2(2) f64_pos [of b] by (cases "b = 0") auto
    ultimately show ?thesis by simp
  next
    case 3
    with assms have "0 < - b" "- b \<le> - a" by simp_all
    from f64_mono_pos [OF this] show ?thesis by (simp add: f64_minus)
  qed
qed

lemma f64_of_int:
  assumes "\<bar>n\<bar> \<le> 2 ^ 53"
  shows "f64 (of_int n) = of_int n"
proof (cases "n = 0")
  case True
  then show ?thesis by simp
next
  case False
  define e where "e = \<lfloor>log 2 \<bar>real_of_int n\<bar>\<rfloor>"
  have nz: "real_of_int n \<noteq> 0" using False by simp
  note b = binade [OF nz, folded e_def]
  have "1 \<le> \<bar>n\<bar>" using False by simp
  then have "1 \<le> \<bar>real_of_int n\<bar>" by (metis of_int_abs of_int_1_le_iff)
  with b(2) have "(2::real) powi 0 < 2 powi (e + 1)" by simp
  then have "0 < e + 1" by (simp only: powi2_less_iff)
  then have e0: "0 \<le> e" by simp
  have le53: "\<bar>real_of_int n\<bar> \<le> 2 ^ 53"
    using assms by (metis of_int_abs of_int_le_iff of_int_numeral of_int_power)
  with b(1) have "(2::real) powi e \<le> 2 powi 53" by simp
  then have e53: "e \<le> 53" by (simp only: powi2_le_iff)
  have f: "f64 (of_int n) = of_int (rne (of_int n / 2 powi (e - 52))) * 2 powi (e - 52)"
    using nz by (simp add: f64_def e_def)
  show ?thesis
  proof (cases "e \<le> 52")
    case True
    then have u: "(2::real) powi (e - 52) = inverse (2 ^ nat (52 - e))"
      by (simp add: power_int_def power_one_over [symmetric] inverse_eq_divide)
    have q: "real_of_int n / 2 powi (e - 52) = of_int (n * 2 ^ nat (52 - e))"
      by (simp add: u divide_inverse)
    show ?thesis unfolding f q rne_of_int by (simp add: u)
  next
    case False
    with e53 have e: "e = 53" by simp
    with b(1) le53 have "\<bar>real_of_int n\<bar> = 2 ^ 53" by simp
    then have "\<bar>n\<bar> = 2 ^ 53" by (metis of_int_abs of_int_eq_iff of_int_numeral of_int_power)
    then have "even \<bar>n\<bar>" by simp
    then have "even n" by (simp only: dvd_abs_iff)
    then obtain k where k: "n = 2 * k" by (elim evenE)
    have q: "real_of_int n / 2 powi (e - 52) = of_int k" by (simp add: e k)
    show ?thesis unfolding f q rne_of_int by (simp add: e k)
  qed
qed

lemma f64_Ints:
  assumes "v \<in> \<int>"
  shows "f64 v \<in> \<int>"
proof -
  from assms obtain n where v: "v = of_int n" by (auto simp: Ints_def)
  show ?thesis
  proof (cases "\<bar>n\<bar> \<le> 2 ^ 53")
    case True
    then show ?thesis by (simp add: v f64_of_int)
  next
    case False
    then have big: "(2::real) ^ 53 < \<bar>real_of_int n\<bar>"
      by (metis not_le of_int_abs of_int_less_iff of_int_numeral of_int_power)
    then have nz: "real_of_int n \<noteq> 0" by auto
    define e where "e = \<lfloor>log 2 \<bar>real_of_int n\<bar>\<rfloor>"
    note b = binade [OF nz, folded e_def]
    from big b(2) have "(2::real) powi 53 < 2 powi (e + 1)" by simp
    then have "53 < e + 1" by (simp only: powi2_less_iff)
    then have "52 \<le> e" by simp
    then have "(2::real) powi (e - 52) = of_int (2 ^ nat (e - 52))"
      by (simp add: power_int_def)
    then show ?thesis using nz by (simp add: v f64_def e_def [symmetric])
  qed
qed



lemma f64_Ints_le: "v \<in> \<int> \<Longrightarrow> \<bar>v\<bar> \<le> 2 ^ 53 \<Longrightarrow> f64 v = v"
proof -
  assume "v \<in> \<int>" and b: "\<bar>v\<bar> \<le> 2 ^ 53"
  then obtain n where v: "v = of_int n" by (auto simp: Ints_def)
  from b have "\<bar>n\<bar> \<le> 2 ^ 53" unfolding v
    by (metis of_int_abs of_int_le_iff of_int_numeral of_int_power)
  then show ?thesis unfolding v by (rule f64_of_int)
qed

lemma f64_numeral: "(numeral k :: int) \<le> 2 ^ 53 \<Longrightarrow> f64 (numeral k) = numeral k"
  using f64_of_int [of "numeral k"] by simp

lemma f64_neg_numeral: "(numeral k :: int) \<le> 2 ^ 53 \<Longrightarrow> f64 (- numeral k) = - numeral k"
  using f64_of_int [of "- numeral k"] by simp

lemma f64_1 [simp]: "f64 1 = 1"
  using f64_of_int [of 1] by simp



lemma f64_nonneg: "0 \<le> v \<Longrightarrow> 0 \<le> f64 v"
  using f64_mono [of 0 v] by simp

lemma whole_f64: "whole v \<Longrightarrow> f64 v = v"
  by (simp add: whole_def f64_Ints_le)

lemma whole_add: "whole a \<Longrightarrow> whole b \<Longrightarrow> f64 (a + b) = a + b"
  by (rule f64_Ints_le) (auto simp: whole_def)


lemma whole_numeral [simp]: "(numeral k :: real) \<le> 2 ^ 50 \<Longrightarrow> whole (numeral k)"
  by (simp add: whole_def)

lemma whole_0 [simp]: "whole 0"
  by (simp add: whole_def)

lemma colliderect_whole:
  assumes "whole_rect a" and "whole_rect b"
  shows "colliderect a b \<longleftrightarrow> overlaps_x a b \<and> y a < y b + h b \<and> y a + h a > y b"
  using assms by (simp add: colliderect_def overlaps_x_def whole_rect_def whole_add)

subsection \<open>Properties of the sweep\<close>

lemmas f64_evals = f64_numeral f64_neg_numeral f64_eval [of "-2"] f64_eval [of "-1"] f64_eval [of 0]
  f64_eval [of 1] f64_eval [of 2] f64_eval [of 8]

lemma sweepSteps_flags:
  "sweepSteps n step pl pyf ps = (pl', r) \<Longrightarrow>
     \<not> (landed r \<and> bumped r) \<and> (landed r \<longrightarrow> step > 0) \<and> (bumped r \<longrightarrow> \<not> step > 0)"
proof (induction n arbitrary: pl pyf)
  case 0
  then show ?case by auto
next
  case (Suc n)
  then show ?case
    by (auto simp: Let_def split: if_splits option.splits)
qed

lemma sweepCount_pos: "0 < sweepCount dy"
proof -
  have "0 \<le> f64 (\<bar>dy\<bar> / 6)" by (rule f64_nonneg) simp
  then have "0 \<le> \<lfloor>f64 (\<bar>dy\<bar> / 6)\<rfloor>" by simp
  then show ?thesis unfolding sweepCount_def by linarith
qed

lemma sweep_step_sign: "(f64 (dy / real (sweepCount dy)) > 0) = (dy > 0)"
  using sweepCount_pos [of dy] by (simp add: f64_sign zero_less_divide_iff)

lemma collideVerticalSweep_steps:
  "dy \<noteq> 0 \<Longrightarrow> collideVerticalSweep pl pyf dy ps
     = sweepSteps (sweepCount dy) (f64 (dy / real (sweepCount dy))) pl pyf ps"
  by (simp add: collideVerticalSweep_def sweepCount_def Let_def)

text \<open>
  C10. The flags returned by \<^verbatim>\<open>collideVerticalSweep\<close> are never both set; \<open>landed\<close> needs a
  downward displacement, \<open>bumped\<close> an upward one; a zero displacement returns the position and
  the player unchanged with both flags clear.
\<close>

theorem sweep_flags_consistent:
  "\<not> (landed (snd (collideVerticalSweep pl pyf dy ps)) \<and> bumped (snd (collideVerticalSweep pl pyf dy ps)))
   \<and> (landed (snd (collideVerticalSweep pl pyf dy ps)) \<longrightarrow> dy > 0)
   \<and> (bumped (snd (collideVerticalSweep pl pyf dy ps)) \<longrightarrow> dy < 0)
   \<and> (dy = 0 \<longrightarrow> collideVerticalSweep pl pyf dy ps
                   = (pl, \<lparr>pyFloat = pyf, landed = False, bumped = False\<rparr>))"
proof (cases "dy = 0")
  case True
  then show ?thesis by (simp add: collideVerticalSweep_def)
next
  case False
  obtain pl' r where res: "collideVerticalSweep pl pyf dy ps = (pl', r)"
    by (cases "collideVerticalSweep pl pyf dy ps")
  from res False have "sweepSteps (sweepCount dy) (f64 (dy / real (sweepCount dy))) pl pyf ps = (pl', r)"
    by (simp add: collideVerticalSweep_steps)
  from sweepSteps_flags [OF this] sweep_step_sign [of dy] False res
  show ?thesis by auto
qed


theorem sweep_flags_consistent_witness:
  "landed (snd (collideVerticalSweep (rect 0 0 10 10) 0 5 [rect 0 12 10 20])) \<and> (5::real) > 0
   \<and> bumped (snd (collideVerticalSweep (rect 0 40 10 10) 40 (-10) [rect 0 12 10 20])) \<and> (-10::real) < 0
   \<and> collideVerticalSweep (rect 0 0 10 10) 0 0 [rect 0 12 10 20]
       = (rect 0 0 10 10, \<lparr>pyFloat = 0, landed = False, bumped = False\<rparr>)"
  using sweep_flags_consistent [of "rect 0 0 10 10" 0 5 "[rect 0 12 10 20]"]
        sweep_flags_consistent [of "rect 0 40 10 10" 40 "-10" "[rect 0 12 10 20]"]
        sweep_flags_consistent [of "rect 0 0 10 10" 0 0 "[rect 0 12 10 20]"]
  by (simp add: collideVerticalSweep_def rect_def colliderect_def f64_evals rne_def Let_def eval_nat_numeral)















text \<open>
  C2 as stated fails in its last clause: from \<open>pyFloat = 350\<close> the displacement 13 is applied
  as three rounded sub-steps that end at 362.99999999999994, and the player at 362, not at
  \<open>350 + 13\<close>.
\<close>

theorem sweep_one_way_counterexample:
  "(0::real) < 13
   \<and> y (rect 160 350 44 58) + h (rect 160 350 44 58) > y (rect 100 360 200 24)
   \<and> collideVerticalSweep (rect 160 350 44 58) 350 13 [rect 100 360 200 24]
       = (rect 160 362 44 58,
          \<lparr>pyFloat = 6385963534123007 / 17592186044416, landed = False, bumped = False\<rparr>)
   \<and> (6385963534123007 / 17592186044416 :: real) < 350 + 13
   \<and> (362 :: real) < of_int \<lfloor>350 + 13 :: real\<rfloor>"
  by (simp add: collideVerticalSweep_def rect_def colliderect_def f64_evals rne_def Let_def
        eval_nat_numeral)

subsection \<open>Properties of the level generator\<close>

lemma Math_random_simps [simp]:
  "fst (Math_random g) = rand_src g (rand_pos g)"
  "snd (Math_random g) = g\<lparr>rand_pos := Suc (rand_pos g)\<rparr>"
  by (simp_all add: Math_random_def)

lemma randi_simps [simp]:
  "fst (randi a b g) = a + of_int \<lfloor>rand_src g (rand_pos g) * (b - a + 1)\<rfloor>"
  "snd (randi a b g) = g\<lparr>rand_pos := Suc (rand_pos g)\<rparr>"
  by (simp_all add: randi_def Math_random_def)

lemma rand_ok_simps [simp]:
  "rand_ok (g\<lparr>rand_pos := n\<rparr>) = rand_ok g"
  "rand_ok (g\<lparr>RUN := r\<rparr>) = rand_ok g"
  "rand_ok (g\<lparr>SAVE := sv\<rparr>) = rand_ok g"
  "rand_ok (g\<lparr>mode := m\<rparr>) = rand_ok g"
  "rand_ok (g\<lparr>sfx_log := l\<rparr>) = rand_ok g"
  by (simp_all add: rand_ok_def)

lemma rand_floor_lower:
  assumes "rand_ok g" and "0 \<le> c"
  shows "0 \<le> \<lfloor>rand_src g i * c\<rfloor>"
proof -
  from assms(1) have "0 \<le> rand_src g i" by (simp add: rand_ok_def)
  with assms(2) have "0 \<le> rand_src g i * c" by simp
  then show ?thesis by simp
qed

lemma rand_floor_upper:
  assumes "rand_ok g" and "0 < k"
  shows "\<lfloor>rand_src g i * of_int k\<rfloor> < k"
proof -
  from assms(1) have "rand_src g i < 1" by (simp add: rand_ok_def)
  with assms(2) have "rand_src g i * of_int k < 1 * of_int k"
    by (intro mult_strict_right_mono) simp_all
  then show ?thesis by (simp add: floor_less_iff)
qed

lemma chunkHazard_shape:
  "\<exists>n L hs. chunkHazard spd camX x0 pf g
      = g\<lparr>rand_pos := n, RUN := (RUN g)\<lparr>last_hazard_x := L, hazards := hs\<rparr>\<rparr>"
proof (cases "rand_src g (rand_pos g) < (if spd > 650 then HAZARD_CHANCE * 0.78 else HAZARD_CHANCE)")
  case True
  then show ?thesis
    by (simp add: chunkHazard_def Let_def case_prod_beta) blast
next
  case False
  then have "chunkHazard spd camX x0 pf g
      = g\<lparr>rand_pos := Suc (rand_pos g),
          RUN := (RUN g)\<lparr>last_hazard_x := last_hazard_x (RUN g), hazards := hazards (RUN g)\<rparr>\<rparr>"
    by (simp add: chunkHazard_def Let_def case_prod_beta)
  then show ?thesis by blast
qed

lemma chunkHazard_frame: "outside_generator g (chunkHazard spd camX x0 pf g)"
proof -
  obtain n L hs where "chunkHazard spd camX x0 pf g
      = g\<lparr>rand_pos := n, RUN := (RUN g)\<lparr>last_hazard_x := L, hazards := hs\<rparr>\<rparr>"
    using chunkHazard_shape by blast
  then show ?thesis by (simp add: outside_generator_def same_kinematics_def)
qed

lemma chunkCoins_shape:
  "\<exists>n cs. chunkCoins pf g = g\<lparr>rand_pos := n, RUN := (RUN g)\<lparr>coins_list := cs\<rparr>\<rparr>"
proof (cases "rand_src g (rand_pos g) < COIN_CHANCE")
  case True
  then show ?thesis
    by (simp add: chunkCoins_def Let_def case_prod_beta) blast
next
  case False
  then have "chunkCoins pf g
      = g\<lparr>rand_pos := Suc (rand_pos g), RUN := (RUN g)\<lparr>coins_list := coins_list (RUN g)\<rparr>\<rparr>"
    by (simp add: chunkCoins_def Let_def case_prod_beta)
  then show ?thesis by blast
qed

lemma chunkCoins_frame: "outside_generator g (chunkCoins pf g)"
proof -
  obtain n cs where "chunkCoins pf g = g\<lparr>rand_pos := n, RUN := (RUN g)\<lparr>coins_list := cs\<rparr>\<rparr>"
    using chunkCoins_shape by blast
  then show ?thesis by (simp add: outside_generator_def same_kinematics_def)
qed

lemma outside_generator_refl: "outside_generator g g"
  by (simp add: outside_generator_def same_kinematics_def)

lemma outside_generator_trans:
  "outside_generator g g' \<Longrightarrow> outside_generator g' g'' \<Longrightarrow> outside_generator g g''"
  by (simp add: outside_generator_def same_kinematics_def)

lemma chunkPlatform_SomeD:
  assumes "chunkPlatform g = Some (pf, g4)"
  shows "g4 = g\<lparr>rand_pos := Suc (Suc (Suc (rand_pos g))),
                  RUN := (RUN g)\<lparr>platforms := platforms (RUN g) @ [pf]\<rparr>\<rparr>"
    and "x pf = of_int \<lfloor>next_spawn_x (RUN g)\<rfloor>"
    and "w pf = PLATFORM_MIN_W + of_int \<lfloor>rand_src g (rand_pos g) * (PLATFORM_MAX_W - PLATFORM_MIN_W + 1)\<rfloor>"
    and "y pf \<in> \<int>"
proof -
  from assms obtain ty where pf: "pf = rect (of_int \<lfloor>next_spawn_x (RUN g)\<rfloor>) (of_int \<lfloor>ty::real\<rfloor>)
        (of_int \<lfloor>fst (randi PLATFORM_MIN_W PLATFORM_MAX_W g)\<rfloor>)
        (of_int \<lfloor>fst (randi PLATFORM_MIN_H PLATFORM_MAX_H (snd (randi PLATFORM_MIN_W PLATFORM_MAX_W g)))\<rfloor>)"
    and g4: "g4 = g\<lparr>rand_pos := Suc (Suc (Suc (rand_pos g))),
                  RUN := (RUN g)\<lparr>platforms := platforms (RUN g) @ [pf]\<rparr>\<rparr>"
    unfolding chunkPlatform_def Let_def case_prod_beta
    by (auto split: option.splits simp del: randi_simps(1))
  show "g4 = g\<lparr>rand_pos := Suc (Suc (Suc (rand_pos g))),
                  RUN := (RUN g)\<lparr>platforms := platforms (RUN g) @ [pf]\<rparr>\<rparr>" by (rule g4)
  show "x pf = of_int \<lfloor>next_spawn_x (RUN g)\<rfloor>" by (simp add: pf rect_def)
  show "w pf = PLATFORM_MIN_W + of_int \<lfloor>rand_src g (rand_pos g) * (PLATFORM_MAX_W - PLATFORM_MIN_W + 1)\<rfloor>"
    by (simp add: pf rect_def PLATFORM_MIN_W_def PLATFORM_MAX_W_def)
  show "y pf \<in> \<int>" by (simp add: pf rect_def)
qed

lemma rand_ok_outside: "outside_generator g g' \<Longrightarrow> rand_ok g' = rand_ok g"
  by (simp add: outside_generator_def rand_ok_def)

lemma chunkPlatform_Some:
  assumes "rand_ok g"
  shows "\<exists>pf g4. chunkPlatform g = Some (pf, g4)"
proof -
  let ?u = "rand_src g (Suc (Suc (rand_pos g)))"
  have lo: "0 \<le> \<lfloor>?u * c\<rfloor>" if "0 \<le> c" for c
    using assms that by (rule rand_floor_lower)
  have hi7: "\<lfloor>?u * 7\<rfloor> < 7" using rand_floor_upper [OF assms, of 7] by simp
  have hi6: "\<lfloor>?u * 6\<rfloor> < 6" using rand_floor_upper [OF assms, of 6] by simp
  show ?thesis
  proof (cases "520 < speed (RUN g)")
    case True
    have "js_index (HEIGHT_LEVELS @ replicate 3 lv) (of_int \<lfloor>?u * 7\<rfloor>) \<noteq> None" for lv
      using lo [of 7] hi7 by (simp add: js_index_def HEIGHT_LEVELS_def)
    with True show ?thesis
      unfolding chunkPlatform_def Let_def case_prod_beta
      by (auto simp: HEIGHT_LEVELS_def split: option.splits)
  next
    case False
    have "js_index (HEIGHT_LEVELS @ replicate 2 lv) (of_int \<lfloor>?u * 6\<rfloor>) \<noteq> None" for lv
      using lo [of 6] hi6 by (simp add: js_index_def HEIGHT_LEVELS_def)
    with False show ?thesis
      unfolding chunkPlatform_def Let_def case_prod_beta
      by (auto simp: HEIGHT_LEVELS_def split: option.splits)
  qed
qed

lemma spawnChunk_SomeD:
  assumes "spawnChunk g = Some g'"
  obtains pf g4 g6 where "chunkPlatform g = Some (pf, g4)"
    and "g6 = chunkCoins pf (chunkHazard (speed (RUN g)) (cam_x (RUN g)) (next_spawn_x (RUN g)) pf g4)"
    and "g' = g6\<lparr>rand_pos := Suc (rand_pos g6),
                  RUN := (RUN g6)\<lparr>next_spawn_x := x pf + w pf
                                       + (MIN_GAP + of_int \<lfloor>rand_src g6 (rand_pos g6) * (MAX_GAP - MIN_GAP + 1)\<rfloor>),
                                    last_platform_top := y pf\<rparr>\<rparr>"
proof (cases "chunkPlatform g")
  case None
  with assms show ?thesis by (simp add: spawnChunk_def)
next
  case (Some a)
  obtain pf g4 where a: "a = (pf, g4)" by (cases a)
  from assms Some a
  have "g' = (chunkCoins pf (chunkHazard (speed (RUN g)) (cam_x (RUN g)) (next_spawn_x (RUN g)) pf g4))
               \<lparr>rand_pos := Suc (rand_pos (chunkCoins pf (chunkHazard (speed (RUN g)) (cam_x (RUN g)) (next_spawn_x (RUN g)) pf g4))),
                RUN := (RUN (chunkCoins pf (chunkHazard (speed (RUN g)) (cam_x (RUN g)) (next_spawn_x (RUN g)) pf g4)))
                  \<lparr>next_spawn_x := x pf + w pf
                      + (MIN_GAP + of_int \<lfloor>rand_src (chunkCoins pf (chunkHazard (speed (RUN g)) (cam_x (RUN g)) (next_spawn_x (RUN g)) pf g4))
                                            (rand_pos (chunkCoins pf (chunkHazard (speed (RUN g)) (cam_x (RUN g)) (next_spawn_x (RUN g)) pf g4)))
                                          * (MAX_GAP - MIN_GAP + 1)\<rfloor>),
                   last_platform_top := y pf\<rparr>\<rparr>"
    by (simp add: spawnChunk_def Let_def case_prod_beta)
  with Some a show ?thesis by (intro that [of pf g4]) simp_all
qed

lemma spawnChunk_Some:
  assumes "rand_ok g"
  shows "\<exists>g'. spawnChunk g = Some g'"
proof -
  from chunkPlatform_Some [OF assms] obtain pf g4 where "chunkPlatform g = Some (pf, g4)" by blast
  then show ?thesis by (simp add: spawnChunk_def Let_def case_prod_beta)
qed

lemma spawnChunk_frame:
  assumes "spawnChunk g = Some g'"
  shows "outside_generator g g'"
proof -
  from assms obtain pf g4 g6 where p: "chunkPlatform g = Some (pf, g4)"
    and g6: "g6 = chunkCoins pf (chunkHazard (speed (RUN g)) (cam_x (RUN g)) (next_spawn_x (RUN g)) pf g4)"
    and g': "g' = g6\<lparr>rand_pos := Suc (rand_pos g6),
                  RUN := (RUN g6)\<lparr>next_spawn_x := x pf + w pf
                                       + (MIN_GAP + of_int \<lfloor>rand_src g6 (rand_pos g6) * (MAX_GAP - MIN_GAP + 1)\<rfloor>),
                                    last_platform_top := y pf\<rparr>\<rparr>"
    by (rule spawnChunk_SomeD)
  have 1: "outside_generator g g4"
    by (simp add: chunkPlatform_SomeD(1) [OF p] outside_generator_def same_kinematics_def)
  have 2: "outside_generator g4 g6"
    unfolding g6 by (rule outside_generator_trans [OF chunkHazard_frame chunkCoins_frame])
  have 3: "outside_generator g6 g'"
    by (simp add: g' outside_generator_def same_kinematics_def)
  from 1 2 3 show ?thesis by (blast intro: outside_generator_trans)
qed

lemma spawnChunk_frontier:
  assumes "rand_ok g" and "spawnChunk g = Some g'"
  shows "next_spawn_x (RUN g') \<ge> of_int \<lfloor>next_spawn_x (RUN g)\<rfloor> + (PLATFORM_MIN_W + MIN_GAP)"
    and "next_spawn_x (RUN g') \<in> \<int>"
proof -
  from assms(2) obtain pf g4 g6 where p: "chunkPlatform g = Some (pf, g4)"
    and g6: "g6 = chunkCoins pf (chunkHazard (speed (RUN g)) (cam_x (RUN g)) (next_spawn_x (RUN g)) pf g4)"
    and g': "g' = g6\<lparr>rand_pos := Suc (rand_pos g6),
                  RUN := (RUN g6)\<lparr>next_spawn_x := x pf + w pf
                                       + (MIN_GAP + of_int \<lfloor>rand_src g6 (rand_pos g6) * (MAX_GAP - MIN_GAP + 1)\<rfloor>),
                                    last_platform_top := y pf\<rparr>\<rparr>"
    by (rule spawnChunk_SomeD)
  have "outside_generator g g4"
    by (simp add: chunkPlatform_SomeD(1) [OF p] outside_generator_def same_kinematics_def)
  moreover have "outside_generator g4 g6"
    unfolding g6 by (rule outside_generator_trans [OF chunkHazard_frame chunkCoins_frame])
  ultimately have "outside_generator g g6" by (rule outside_generator_trans)
  then have ok6: "rand_ok g6" using assms(1) by (simp add: rand_ok_outside)
  have nx: "next_spawn_x (RUN g') = x pf + w pf
              + (MIN_GAP + of_int \<lfloor>rand_src g6 (rand_pos g6) * (MAX_GAP - MIN_GAP + 1)\<rfloor>)"
    by (simp add: g')
  have gap: "0 \<le> \<lfloor>rand_src g6 (rand_pos g6) * (MAX_GAP - MIN_GAP + 1)\<rfloor>"
    using ok6 by (rule rand_floor_lower) (simp add: MAX_GAP_def MIN_GAP_def)
  have wd: "0 \<le> \<lfloor>rand_src g (rand_pos g) * (PLATFORM_MAX_W - PLATFORM_MIN_W + 1)\<rfloor>"
    using assms(1) by (rule rand_floor_lower) (simp add: PLATFORM_MAX_W_def PLATFORM_MIN_W_def)
  note pfx = chunkPlatform_SomeD(2) [OF p] and pfw = chunkPlatform_SomeD(3) [OF p]
  show "next_spawn_x (RUN g') \<ge> of_int \<lfloor>next_spawn_x (RUN g)\<rfloor> + (PLATFORM_MIN_W + MIN_GAP)"
    using gap wd by (simp add: nx pfx pfw)
  show "next_spawn_x (RUN g') \<in> \<int>"
    by (simp add: nx pfx pfw MIN_GAP_def PLATFORM_MIN_W_def)
qed

lemma generationLoop_terminates:
  assumes "rand_ok g"
  shows "\<exists>g'. generationLoop camX g = Some g' \<and> next_spawn_x (RUN g') \<ge> camX + WIDTH * 2.2
              \<and> outside_generator g g'"
  using assms
proof (induction "nat \<lceil>camX + WIDTH * 2.2 - next_spawn_x (RUN g)\<rceil>" arbitrary: g rule: less_induct)
  case less
  show ?case
  proof (cases "next_spawn_x (RUN g) < camX + WIDTH * 2.2")
    case False
    then show ?thesis
      by (simp add: generationLoop.simps [of camX g] outside_generator_refl)
  next
    case True
    from spawnChunk_Some [OF less.prems] obtain g1 where g1: "spawnChunk g = Some g1" by blast
    have fr: "outside_generator g g1" using g1 by (rule spawnChunk_frame)
    then have ok1: "rand_ok g1" using less.prems by (simp add: rand_ok_outside)
    have "next_spawn_x (RUN g1) \<ge> of_int \<lfloor>next_spawn_x (RUN g)\<rfloor> + (PLATFORM_MIN_W + MIN_GAP)"
      using less.prems g1 by (rule spawnChunk_frontier)
    then have adv: "next_spawn_x (RUN g1) \<ge> next_spawn_x (RUN g) + 1"
      by (simp add: PLATFORM_MIN_W_def MIN_GAP_def) linarith
    have "\<lceil>camX + WIDTH * 2.2 - next_spawn_x (RUN g1)\<rceil> \<le> \<lceil>camX + WIDTH * 2.2 - next_spawn_x (RUN g) - 1\<rceil>"
      using adv by (intro ceiling_mono) linarith
    moreover have "0 < \<lceil>camX + WIDTH * 2.2 - next_spawn_x (RUN g)\<rceil>" using True by simp
    ultimately have dec: "nat \<lceil>camX + WIDTH * 2.2 - next_spawn_x (RUN g1)\<rceil>
                          < nat \<lceil>camX + WIDTH * 2.2 - next_spawn_x (RUN g)\<rceil>"
      by simp
    from less.hyps [OF dec ok1] obtain g' where
      g': "generationLoop camX g1 = Some g'" "next_spawn_x (RUN g') \<ge> camX + WIDTH * 2.2"
          "outside_generator g1 g'" by blast
    have "generationLoop camX g = Some g'"
      using True g1 g'(1) by (simp add: generationLoop.simps [of camX g])
    with g'(2) outside_generator_trans [OF fr g'(3)] show ?thesis by blast
  qed
qed






lemmas consts_defs = GAME_W_def GAME_H_def WIDTH_def HEIGHT_def GROUND_H_def GROUND_Y_def
  BASE_SPEED_def MAX_SPEED_def SPEED_RAMP_def GRAVITY_def BASE_JUMP_V_def MAX_FALL_V_def
  BASE_COYOTE_def BASE_JUMP_BUF_def MIN_GAP_def MAX_GAP_def PLATFORM_MIN_W_def PLATFORM_MAX_W_def
  PLATFORM_MIN_H_def PLATFORM_MAX_H_def HEIGHT_LEVELS_def MIN_REACTION_T_def MAX_REACTION_T_def
  MIN_HAZARD_SEP_T_def HAZARD_CHANCE_def COIN_CHANCE_def JUMP_CUT_MULT_def

lemma newRunState_default:
  "newRunState defaultSaveData =
     \<lparr>cam_x = 0, speed = 320, score = 0, score_f = 0, coins_run = 0,
      player = \<lparr>x = 160, y = 402, w = 44, h = 58\<rparr>, py = 402, vy = 0,
      on_ground = True, coyote = 0, jump_buf = 0,
      jump_v = 880, coyote_t = 1 / 10, coin_mul = 1, magnet_px = 0,
      platforms = [\<lparr>x = 0, y = 436, w = 2160, h = 24\<rparr>], hazards = [], coins_list = [],
      next_spawn_x = 2300, last_platform_top = 436, last_hazard_x = - 10000000,
      jump_cut = False, jump_time = 0\<rparr>"
  by (simp add: newRunState_def runParamsFromUpgrades_def defaultSaveData_def rect_def Let_def consts_defs)















subsection \<open>Properties of the play update\<close>

lemma generationLoop_frame:
  assumes "generationLoop camX g = Some g'"
  shows "outside_generator g g'"
proof (rule generationLoop.raw_induct [where P = "\<lambda>c g g'. outside_generator g g'", OF _ assms],
       goal_cases)
  case (1 loop camX g g')
  show ?case
  proof (cases "next_spawn_x (RUN g) < camX + WIDTH * 2.2")
    case False
    with 1(2) show ?thesis by (simp add: outside_generator_refl)
  next
    case True
    with 1(2) have "Option.bind (spawnChunk g) (loop camX) = Some g'" by simp
    then obtain g1 where g1: "spawnChunk g = Some g1" and rest: "loop camX g1 = Some g'"
      by (cases "spawnChunk g") simp_all
    from spawnChunk_frame [OF g1] 1(1) [OF rest] show ?thesis
      by (rule outside_generator_trans)
  qed
qed

lemma sweep_landed_down:
  assumes "landed (snd (collideVerticalSweep pl pyf dy ps))"
  shows "0 < dy"
proof (cases "dy = 0")
  case True
  with assms show ?thesis by (simp add: collideVerticalSweep_def)
next
  case False
  obtain pl' r where res: "collideVerticalSweep pl pyf dy ps = (pl', r)"
    by (cases "collideVerticalSweep pl pyf dy ps")
  from res False have "sweepSteps (sweepCount dy) (f64 (dy / real (sweepCount dy))) pl pyf ps = (pl', r)"
    by (simp add: collideVerticalSweep_steps)
  from sweepSteps_flags [OF this] sweep_step_sign [of dy] assms res
  show ?thesis by simp
qed

lemma tickVertical_shape:
  "\<exists>p' y' v' o'. tickVertical dt r = r\<lparr>player := p', on_ground := o', py := y', vy := v'\<rparr>"
proof -
  let ?pl0 = "(player r)\<lparr>x := of_int \<lfloor>f64 (cam_x r + 160)\<rfloor>\<rparr>"
  obtain pl1 sw where sw: "collideVerticalSweep ?pl0 (py r) (f64 (vy r * dt)) (platforms r) = (pl1, sw)"
    by (cases "collideVerticalSweep ?pl0 (py r) (f64 (vy r * dt)) (platforms r)")
  define r1 where "r1 = r\<lparr>player := pl1, on_ground := False, py := pyFloat sw\<rparr>"
  have "tickVertical dt r = r1\<lparr>player := pl1\<lparr>y := f64 (GROUND_Y - h pl1)\<rparr>, py := f64 (GROUND_Y - h pl1),
                                 vy := 0, on_ground := True\<rparr>
        \<or> tickVertical dt r = r1 \<or> tickVertical dt r = r1\<lparr>vy := 0, on_ground := True\<rparr>"
    unfolding tickVertical_def Let_def sw prod.case r1_def by simp
  then consider
      "tickVertical dt r = r\<lparr>player := pl1\<lparr>y := f64 (GROUND_Y - h pl1)\<rparr>, on_ground := True,
                              py := f64 (GROUND_Y - h pl1), vy := 0\<rparr>"
    | "tickVertical dt r = r\<lparr>player := pl1, on_ground := False, py := pyFloat sw, vy := vy r\<rparr>"
    | "tickVertical dt r = r\<lparr>player := pl1, on_ground := True, py := pyFloat sw, vy := 0\<rparr>"
    by (auto simp: r1_def)
  then show ?thesis by cases blast+
qed

lemma tickVertical_rising:
  assumes "0 \<le> dt" and "vy r \<le> 0"
  shows "\<exists>p' y'. tickVertical dt r = r\<lparr>player := p', on_ground := False, py := y'\<rparr>"
proof -
  let ?pl0 = "(player r)\<lparr>x := of_int \<lfloor>f64 (cam_x r + 160)\<rfloor>\<rparr>"
  obtain pl1 sw where sw: "collideVerticalSweep ?pl0 (py r) (f64 (vy r * dt)) (platforms r) = (pl1, sw)"
    by (cases "collideVerticalSweep ?pl0 (py r) (f64 (vy r * dt)) (platforms r)")
  have "vy r * dt \<le> 0" using assms by (simp add: mult_nonpos_nonneg)
  then have "f64 (vy r * dt) \<le> 0" using f64_mono [of "vy r * dt" 0] by simp
  moreover have "0 < f64 (vy r * dt)" if "landed sw"
    using that sweep_landed_down [of ?pl0 "py r" "f64 (vy r * dt)" "platforms r", unfolded sw]
    by simp
  ultimately have nl: "\<not> landed sw" by fastforce
  have "tickVertical dt r = r\<lparr>player := pl1, on_ground := False, py := pyFloat sw\<rparr>"
    unfolding tickVertical_def Let_def sw prod.case using nl assms(2) by simp
  then show ?thesis by blast
qed

lemma tickTimers_shape:
  "\<exists>jb cy jc jt. tickTimers dt jp r = r\<lparr>jump_buf := jb, coyote := cy, jump_cut := jc, jump_time := jt\<rparr>"
proof -
  have "tickTimers dt jp r = r\<lparr>jump_buf := jump_buf (tickTimers dt jp r), coyote := coyote (tickTimers dt jp r),
          jump_cut := jump_cut (tickTimers dt jp r), jump_time := jump_time (tickTimers dt jp r)\<rparr>"
    by (simp add: tickTimers_def Let_def)
  then show ?thesis by blast
qed

lemma applyBufferedJump_shape:
  "\<exists>v og cy jb jc jt lg. applyBufferedJump g
      = g\<lparr>RUN := (RUN g)\<lparr>vy := v, on_ground := og, coyote := cy, jump_buf := jb, jump_cut := jc,
                           jump_time := jt\<rparr>, sfx_log := lg\<rparr>"
proof (cases "jump_buf (RUN g) > 0 \<and> coyote (RUN g) > 0")
  case True
  then show ?thesis by (simp add: applyBufferedJump_def) blast
next
  case False
  then have "applyBufferedJump g = g\<lparr>RUN := (RUN g)\<lparr>vy := vy (RUN g), on_ground := on_ground (RUN g),
        coyote := coyote (RUN g), jump_buf := jump_buf (RUN g), jump_cut := jump_cut (RUN g),
        jump_time := jump_time (RUN g)\<rparr>, sfx_log := sfx_log g\<rparr>"
    by (auto simp: applyBufferedJump_def)
  then show ?thesis by blast
qed

lemma tickJumpCut_shape: "\<exists>v jc. tickJumpCut jr r = r\<lparr>vy := v, jump_cut := jc\<rparr>"
proof -
  have "tickJumpCut jr r = r\<lparr>vy := vy (tickJumpCut jr r), jump_cut := jump_cut (tickJumpCut jr r)\<rparr>"
    by (simp add: tickJumpCut_def)
  then show ?thesis by blast
qed

lemma tickKinematics_shape:
  "\<exists>sf sc jb cy jc jt v og lg. tickKinematics dt jp jr g
      = g\<lparr>RUN := (RUN g)\<lparr>speed := rampSpeed (speed (RUN g)) dt, score_f := sf, score := sc,
                           jump_buf := jb, coyote := cy,
                           jump_cut := jc, jump_time := jt, vy := v, on_ground := og\<rparr>,
           SAVE := (SAVE g)\<lparr>best_score := max (best_score (SAVE g)) sc\<rparr>, sfx_log := lg\<rparr>"
proof -
  define g2 where "g2 = updateBestScore False (g\<lparr>RUN := tickSpeedScore dt (RUN g)\<rparr>)"
  obtain sf sc where g2: "g2 = g\<lparr>RUN := (RUN g)\<lparr>speed := rampSpeed (speed (RUN g)) dt, score_f := sf, score := sc\<rparr>,
                                 SAVE := (SAVE g)\<lparr>best_score := max (best_score (SAVE g)) sc\<rparr>\<rparr>"
    by (simp add: g2_def updateBestScore_def tickSpeedScore_def Let_def)
  define g3 where "g3 = g2\<lparr>RUN := tickTimers dt jp (RUN g2)\<rparr>"
  obtain jb cy jc jt where g3: "g3 = g2\<lparr>RUN := (RUN g2)\<lparr>jump_buf := jb, coyote := cy, jump_cut := jc, jump_time := jt\<rparr>\<rparr>"
    unfolding g3_def using tickTimers_shape [of dt jp "RUN g2"] by auto
  define g4 where "g4 = applyBufferedJump g3"
  obtain v og cy' jb' jc' jt' lg where g4: "g4 = g3\<lparr>RUN := (RUN g3)\<lparr>vy := v, on_ground := og, coyote := cy',
        jump_buf := jb', jump_cut := jc', jump_time := jt'\<rparr>, sfx_log := lg\<rparr>"
    unfolding g4_def using applyBufferedJump_shape [of g3] by auto
  define r5 where "r5 = tickGravity dt (RUN g4)"
  obtain v' jc'' where g5: "tickJumpCut jr r5 = r5\<lparr>vy := v', jump_cut := jc''\<rparr>"
    using tickJumpCut_shape [of jr r5] by auto
  have "tickKinematics dt jp jr g = g4\<lparr>RUN := tickJumpCut jr r5\<rparr>"
    by (simp add: tickKinematics_def Let_def g4_def g3_def g2_def r5_def)
  also have "\<dots> = g4\<lparr>RUN := r5\<lparr>vy := v', jump_cut := jc''\<rparr>\<rparr>"
    by (simp only: g5)
  also have "\<dots> = g\<lparr>RUN := (RUN g)\<lparr>speed := rampSpeed (speed (RUN g)) dt, score_f := sf, score := sc,
                           jump_buf := jb', coyote := cy',
                           jump_cut := jc'', jump_time := jt', vy := v', on_ground := og\<rparr>,
           SAVE := (SAVE g)\<lparr>best_score := max (best_score (SAVE g)) sc\<rparr>, sfx_log := lg\<rparr>"
    by (simp add: r5_def tickGravity_def g4 g3 g2)
  finally show ?thesis by blast
qed

lemma cleanupLists_shape: "\<exists>ps hs cs. cleanupLists r = r\<lparr>platforms := ps, hazards := hs, coins_list := cs\<rparr>"
proof -
  have "cleanupLists r = r\<lparr>platforms := platforms (cleanupLists r), hazards := hazards (cleanupLists r),
          coins_list := coins_list (cleanupLists r)\<rparr>"
    by (simp add: cleanupLists_def Let_def)
  then show ?thesis by blast
qed

lemma tickMagnet_shape: "\<exists>cs. tickMagnet dt r = r\<lparr>coins_list := cs\<rparr>"
proof -
  have "tickMagnet dt r = r\<lparr>coins_list := coins_list (tickMagnet dt r)\<rparr>"
    by (simp add: tickMagnet_def Let_def)
  then show ?thesis by blast
qed

lemma tickCoins_shape:
  "\<exists>n cs lg. tickCoins g = g\<lparr>RUN := (RUN g)\<lparr>coins_run := n, coins_list := cs\<rparr>, sfx_log := lg\<rparr>"
proof -
  have "tickCoins g = g\<lparr>RUN := (RUN g)\<lparr>coins_run := coins_run (RUN (tickCoins g)),
          coins_list := coins_list (RUN (tickCoins g))\<rparr>, sfx_log := sfx_log (tickCoins g)\<rparr>"
    by (simp add: tickCoins_def Let_def)
  then show ?thesis by blast
qed

lemma after_generation_frame:
  assumes "outside_generator g7 g8"
  shows "same_kinematics (RUN g7) (RUN (tickCoins (g8\<lparr>RUN := tickMagnet dt (cleanupLists (RUN g8))\<rparr>)))"
    and "SAVE (tickCoins (g8\<lparr>RUN := tickMagnet dt (cleanupLists (RUN g8))\<rparr>)) = SAVE g7"
    and "mode (tickCoins (g8\<lparr>RUN := tickMagnet dt (cleanupLists (RUN g8))\<rparr>)) = mode g7"
    and "paused (tickCoins (g8\<lparr>RUN := tickMagnet dt (cleanupLists (RUN g8))\<rparr>)) = paused g7"
    and "rand_src (tickCoins (g8\<lparr>RUN := tickMagnet dt (cleanupLists (RUN g8))\<rparr>)) = rand_src g7"
proof -
  obtain ps hs cs where c: "cleanupLists (RUN g8) = (RUN g8)\<lparr>platforms := ps, hazards := hs, coins_list := cs\<rparr>"
    using cleanupLists_shape by blast
  define r9 where "r9 = cleanupLists (RUN g8)"
  obtain cs' where m: "tickMagnet dt r9 = r9\<lparr>coins_list := cs'\<rparr>"
    using tickMagnet_shape by blast
  define g9 where "g9 = g8\<lparr>RUN := tickMagnet dt r9\<rparr>"
  obtain n cs'' lg where t: "tickCoins g9 = g9\<lparr>RUN := (RUN g9)\<lparr>coins_run := n, coins_list := cs''\<rparr>, sfx_log := lg\<rparr>"
    using tickCoins_shape by blast
  have g9: "g9 = g8\<lparr>RUN := (RUN g8)\<lparr>platforms := ps, hazards := hs, coins_list := cs'\<rparr>\<rparr>"
    unfolding g9_def m by (simp add: r9_def c)
  have eq: "tickCoins (g8\<lparr>RUN := tickMagnet dt (cleanupLists (RUN g8))\<rparr>)
        = g8\<lparr>RUN := (RUN g8)\<lparr>platforms := ps, hazards := hs, coins_run := n, coins_list := cs''\<rparr>, sfx_log := lg\<rparr>"
    unfolding r9_def [symmetric] g9_def [symmetric] t by (simp add: g9)
  from assms show "same_kinematics (RUN g7) (RUN (tickCoins (g8\<lparr>RUN := tickMagnet dt (cleanupLists (RUN g8))\<rparr>)))"
    unfolding eq by (simp add: outside_generator_def same_kinematics_def)
  from assms show "SAVE (tickCoins (g8\<lparr>RUN := tickMagnet dt (cleanupLists (RUN g8))\<rparr>)) = SAVE g7"
    unfolding eq by (simp add: outside_generator_def)
  from assms show "mode (tickCoins (g8\<lparr>RUN := tickMagnet dt (cleanupLists (RUN g8))\<rparr>)) = mode g7"
    unfolding eq by (simp add: outside_generator_def)
  from assms show "paused (tickCoins (g8\<lparr>RUN := tickMagnet dt (cleanupLists (RUN g8))\<rparr>)) = paused g7"
    unfolding eq by (simp add: outside_generator_def)
  from assms show "rand_src (tickCoins (g8\<lparr>RUN := tickMagnet dt (cleanupLists (RUN g8))\<rparr>)) = rand_src g7"
    unfolding eq by (simp add: outside_generator_def)
qed

lemma playUpdateBody_SomeD:
  assumes "playUpdateBody dt jp jh jr g = Some m"
  shows "\<exists>g8. ensureGenerationAhead ((tickKinematics dt jp jr g)
                  \<lparr>RUN := advanceCamera dt (tickVertical dt (RUN (tickKinematics dt jp jr g)))\<rparr>) = Some g8
              \<and> m = tickCoins (g8\<lparr>RUN := tickMagnet dt (cleanupLists (RUN g8))\<rparr>)"
  using assms by (auto simp: playUpdateBody_def Let_def bind_eq_Some_conv)

lemma playUpdateBody_frame:
  assumes "playUpdateBody dt jp jh jr g = Some m"
  shows "same_kinematics (advanceCamera dt (tickVertical dt (RUN (tickKinematics dt jp jr g)))) (RUN m)"
    and "SAVE m = SAVE (tickKinematics dt jp jr g)"
    and "mode m = mode g" and "paused m = paused g" and "rand_src m = rand_src g"
proof -
  let ?g5 = "tickKinematics dt jp jr g"
  let ?g7 = "?g5\<lparr>RUN := advanceCamera dt (tickVertical dt (RUN ?g5))\<rparr>"
  from playUpdateBody_SomeD [OF assms] obtain g8 where
    g8: "ensureGenerationAhead ?g7 = Some g8"
    and m: "m = tickCoins (g8\<lparr>RUN := tickMagnet dt (cleanupLists (RUN g8))\<rparr>)" by blast
  from g8 have fr: "outside_generator ?g7 g8"
    unfolding ensureGenerationAhead_def by (rule generationLoop_frame)
  obtain sf sc jb cy jc jt v og lg where k: "?g5
      = g\<lparr>RUN := (RUN g)\<lparr>speed := rampSpeed (speed (RUN g)) dt, score_f := sf, score := sc,
                           jump_buf := jb, coyote := cy,
                           jump_cut := jc, jump_time := jt, vy := v, on_ground := og\<rparr>,
           SAVE := (SAVE g)\<lparr>best_score := max (best_score (SAVE g)) sc\<rparr>, sfx_log := lg\<rparr>"
    using tickKinematics_shape [of dt jp jr g] by (elim exE) (rule that, assumption)
  note af = after_generation_frame [OF fr, of dt, folded m]
  from af(1) show "same_kinematics (advanceCamera dt (tickVertical dt (RUN ?g5))) (RUN m)" by simp
  from af(2) show "SAVE m = SAVE ?g5" by simp
  have "mode ?g5 = mode g" "paused ?g5 = paused g" "rand_src ?g5 = rand_src g"
    unfolding k by simp_all
  with af(3,4,5) show "mode m = mode g" "paused m = paused g" "rand_src m = rand_src g" by simp_all
qed

lemma playUpdateBody_Some:
  assumes "rand_ok g"
  shows "\<exists>m. playUpdateBody dt jp jh jr g = Some m"
proof -
  let ?g5 = "tickKinematics dt jp jr g"
  let ?g7 = "?g5\<lparr>RUN := advanceCamera dt (tickVertical dt (RUN ?g5))\<rparr>"
  obtain sf sc jb cy jc jt v og lg where k: "?g5
      = g\<lparr>RUN := (RUN g)\<lparr>speed := rampSpeed (speed (RUN g)) dt, score_f := sf, score := sc,
                           jump_buf := jb, coyote := cy,
                           jump_cut := jc, jump_time := jt, vy := v, on_ground := og\<rparr>,
           SAVE := (SAVE g)\<lparr>best_score := max (best_score (SAVE g)) sc\<rparr>, sfx_log := lg\<rparr>"
    using tickKinematics_shape [of dt jp jr g] by (elim exE) (rule that, assumption)
  have "rand_src ?g5 = rand_src g" unfolding k by simp
  then have "rand_ok ?g7" using assms by (simp add: rand_ok_def)
  from generationLoop_terminates [OF this, of "cam_x (RUN ?g7)"]
  obtain g8 where "ensureGenerationAhead ?g7 = Some g8"
    unfolding ensureGenerationAhead_def by blast
  then show ?thesis by (simp add: playUpdateBody_def Let_def)
qed

lemma tickHazards_keeps:
  "RUN (tickHazards g) = RUN g" "rand_src (tickHazards g) = rand_src g" "paused (tickHazards g) = paused g"
  by (simp_all add: tickHazards_def awardMoneyAndSave_def updateBestScore_def Let_def split: option.splits)

lemma playUpdate_Some:
  assumes "rand_ok g"
  shows "\<exists>g'. playUpdate dt jp jh jr g = Some g'"
  using playUpdateBody_Some [OF assms, of dt jp jh jr] by (auto simp: playUpdate_def)

lemma playUpdate_after_kinematics:
  assumes "playUpdate dt jp jh jr g = Some g'"
  shows "speed (RUN g') = rampSpeed (speed (RUN g)) dt"
    and "jump_cut (RUN g') = jump_cut (RUN (tickKinematics dt jp jr g))"
    and "coyote (RUN g') = coyote (RUN (tickKinematics dt jp jr g))"
    and "rand_src g' = rand_src g"
proof -
  let ?k = "tickKinematics dt jp jr g"
  from assms obtain m where m: "playUpdateBody dt jp jh jr g = Some m" and g': "g' = tickHazards m"
    by (auto simp: playUpdate_def)
  note fr = playUpdateBody_frame [OF m]
  obtain p' y' v' o' where v: "tickVertical dt (RUN ?k) = (RUN ?k)\<lparr>player := p', on_ground := o', py := y', vy := v'\<rparr>"
    using tickVertical_shape by blast
  obtain sf sc jb cy jc jt v og lg where k: "?k
      = g\<lparr>RUN := (RUN g)\<lparr>speed := rampSpeed (speed (RUN g)) dt, score_f := sf, score := sc,
                           jump_buf := jb, coyote := cy,
                           jump_cut := jc, jump_time := jt, vy := v, on_ground := og\<rparr>,
           SAVE := (SAVE g)\<lparr>best_score := max (best_score (SAVE g)) sc\<rparr>, sfx_log := lg\<rparr>"
    using tickKinematics_shape [of dt jp jr g] by (elim exE) (rule that, assumption)
  have sp: "speed (RUN ?k) = rampSpeed (speed (RUN g)) dt" unfolding k by simp
  from fr(1) have "speed (RUN m) = speed (RUN ?k)" "jump_cut (RUN m) = jump_cut (RUN ?k)"
      "coyote (RUN m) = coyote (RUN ?k)"
    unfolding v by (simp_all add: same_kinematics_def advanceCamera_def)
  with sp show "speed (RUN g') = rampSpeed (speed (RUN g)) dt"
      "jump_cut (RUN g') = jump_cut (RUN ?k)" "coyote (RUN g') = coyote (RUN ?k)"
    by (simp_all add: g' tickHazards_keeps)
  from fr(5) show "rand_src g' = rand_src g" by (simp add: g' tickHazards_keeps)
qed

lemma playUpdate_rising:
  assumes "playUpdate dt jp jh jr g = Some g'" and "0 \<le> dt"
    and "vy (RUN (tickKinematics dt jp jr g)) \<le> 0"
  shows "vy (RUN g') = vy (RUN (tickKinematics dt jp jr g))" and "\<not> on_ground (RUN g')"
proof -
  let ?k = "tickKinematics dt jp jr g"
  from assms(1) obtain m where m: "playUpdateBody dt jp jh jr g = Some m" and g': "g' = tickHazards m"
    by (auto simp: playUpdate_def)
  note fr = playUpdateBody_frame [OF m]
  obtain p' y' where v: "tickVertical dt (RUN ?k) = (RUN ?k)\<lparr>player := p', on_ground := False, py := y'\<rparr>"
    using tickVertical_rising [OF assms(2,3)] by blast
  from fr(1) have "vy (RUN m) = vy (RUN ?k)" "\<not> on_ground (RUN m)"
    unfolding v by (simp_all add: same_kinematics_def advanceCamera_def)
  then show "vy (RUN g') = vy (RUN ?k)" "\<not> on_ground (RUN g')"
    by (simp_all add: g' tickHazards_keeps)
qed

lemma tickSpeedScore_keeps [simp]:
  "on_ground (tickSpeedScore dt r) = on_ground r" "coyote (tickSpeedScore dt r) = coyote r"
  "jump_buf (tickSpeedScore dt r) = jump_buf r" "jump_cut (tickSpeedScore dt r) = jump_cut r"
  "vy (tickSpeedScore dt r) = vy r" "jump_v (tickSpeedScore dt r) = jump_v r"
  "coyote_t (tickSpeedScore dt r) = coyote_t r"
  by (simp_all add: tickSpeedScore_def Let_def)

lemma tickTimers_sel [simp]:
  "on_ground (tickTimers dt jp r) = on_ground r" "vy (tickTimers dt jp r) = vy r"
  "jump_v (tickTimers dt jp r) = jump_v r"
  "coyote (tickTimers dt jp r) = (if on_ground r then coyote_t r else max 0 (coyote r - dt))"
  "jump_buf (tickTimers dt jp r) = (if jp then BASE_JUMP_BUF else max 0 (jump_buf r - dt))"
  "jump_cut (tickTimers dt jp r) = (if on_ground r then False else jump_cut r)"
  by (simp_all add: tickTimers_def Let_def)

lemma applyBufferedJump_RUN:
  "RUN (applyBufferedJump g) =
     (if 0 < jump_buf (RUN g) \<and> 0 < coyote (RUN g)
      then (RUN g)\<lparr>vy := - jump_v (RUN g), on_ground := False, coyote := 0, jump_buf := 0,
                    jump_cut := False, jump_time := 0\<rparr>
      else RUN g)"
  by (simp add: applyBufferedJump_def)

lemma tickKinematics_RUN:
  "RUN (tickKinematics dt jp jr g) =
     tickJumpCut jr (tickGravity dt (RUN (applyBufferedJump
        (g\<lparr>RUN := tickTimers dt jp (tickSpeedScore dt (RUN g))\<rparr>))))"
  by (simp add: tickKinematics_def Let_def updateBestScore_def applyBufferedJump_RUN)

lemma kinematics_jump:
  assumes "on_ground (RUN g)" and "0 < coyote_t (RUN g)"
  shows "vy (RUN (tickKinematics dt True False g)) = clamp (- jump_v (RUN g) + GRAVITY * dt) (- 5000) MAX_FALL_V"
  using assms
  by (simp add: tickKinematics_RUN applyBufferedJump_RUN tickGravity_def tickJumpCut_def BASE_JUMP_BUF_def)

lemma kinematics_cut_arc:
  assumes "\<not> on_ground (RUN g)" and "jump_cut (RUN g)" and "coyote (RUN g) = 0" and "0 \<le> dt"
  shows "tickKinematics dt jp True g = tickKinematics dt jp False g"
    and "jump_cut (RUN (tickKinematics dt jp jr g))"
    and "coyote (RUN (tickKinematics dt jp jr g)) = 0"
proof -
  let ?g3 = "(updateBestScore False (g\<lparr>RUN := tickSpeedScore dt (RUN g)\<rparr>))
               \<lparr>RUN := tickTimers dt jp (RUN (updateBestScore False (g\<lparr>RUN := tickSpeedScore dt (RUN g)\<rparr>)))\<rparr>"
  let ?r5 = "tickGravity dt (RUN (applyBufferedJump ?g3))"
  have r3: "RUN ?g3 = tickTimers dt jp (tickSpeedScore dt (RUN g))"
    by (simp add: updateBestScore_def)
  have r4: "RUN (applyBufferedJump ?g3) = RUN ?g3"
    using assms by (simp add: applyBufferedJump_RUN r3)
  have jc: "jump_cut ?r5" "coyote ?r5 = 0"
    using assms by (simp_all add: tickGravity_def r4 r3)
  then have "tickJumpCut True ?r5 = tickJumpCut False ?r5" by (simp add: tickJumpCut_def)
  then show "tickKinematics dt jp True g = tickKinematics dt jp False g"
    by (simp add: tickKinematics_def Let_def)
  show "jump_cut (RUN (tickKinematics dt jp jr g))" "coyote (RUN (tickKinematics dt jp jr g)) = 0"
    using assms
    by (simp_all add: tickKinematics_RUN applyBufferedJump_RUN tickGravity_def tickJumpCut_def)
qed

lemma kinematics_first_cut:
  assumes "\<not> on_ground (RUN g)" and "\<not> jump_cut (RUN g)" and "coyote (RUN g) = 0" and "0 \<le> dt"
    and "- 5000 \<le> vy (RUN g) + GRAVITY * dt" and "vy (RUN g) + GRAVITY * dt < 0"
  shows "vy (RUN (tickKinematics dt jp True g)) = (vy (RUN g) + GRAVITY * dt) * JUMP_CUT_MULT"
    and "jump_cut (RUN (tickKinematics dt jp True g))"
    and "coyote (RUN (tickKinematics dt jp True g)) = 0"
  using assms
  by (simp_all add: tickKinematics_RUN applyBufferedJump_RUN tickGravity_def tickJumpCut_def
        clamp_def MAX_FALL_V_def)

text \<open>
  C3. The buffered jump runs, which is marked by its sound effect, if and only if
  \<open>jump_buf > 0\<close> and \<open>coyote > 0\<close> at the check; when it runs \<open>vy = - jump_v\<close>, both timers
  are zero, \<open>jump_cut\<close> is clear and \<open>on_ground\<close> is false; otherwise the state is untouched. In
  a tick the check is made on the state left by the speed ramp and the two timers.
\<close>

theorem buffered_jump_gate:
  "(sfx_log (applyBufferedJump g) = sfx_log g @ [SfxJump]
      \<longleftrightarrow> jump_buf (RUN g) > 0 \<and> coyote (RUN g) > 0)
   \<and> (jump_buf (RUN g) > 0 \<and> coyote (RUN g) > 0 \<longrightarrow>
        vy (RUN (applyBufferedJump g)) = - jump_v (RUN g)
        \<and> jump_buf (RUN (applyBufferedJump g)) = 0 \<and> coyote (RUN (applyBufferedJump g)) = 0
        \<and> \<not> jump_cut (RUN (applyBufferedJump g)) \<and> \<not> on_ground (RUN (applyBufferedJump g)))
   \<and> (\<not> (jump_buf (RUN g) > 0 \<and> coyote (RUN g) > 0) \<longrightarrow> applyBufferedJump g = g)
   \<and> (sfx_log (tickKinematics dt jumpPressed jumpReleased g) = sfx_log g @ [SfxJump]
      \<longleftrightarrow> jump_buf (tickTimers dt jumpPressed (tickSpeedScore dt (RUN g))) > 0
          \<and> coyote (tickTimers dt jumpPressed (tickSpeedScore dt (RUN g))) > 0)"
proof -
  let ?g3 = "(updateBestScore False (g\<lparr>RUN := tickSpeedScore dt (RUN g)\<rparr>))
               \<lparr>RUN := tickTimers dt jumpPressed (RUN (updateBestScore False (g\<lparr>RUN := tickSpeedScore dt (RUN g)\<rparr>)))\<rparr>"
  have r3: "RUN ?g3 = tickTimers dt jumpPressed (tickSpeedScore dt (RUN g))" "sfx_log ?g3 = sfx_log g"
    by (simp_all add: updateBestScore_def)
  have k: "sfx_log (tickKinematics dt jumpPressed jumpReleased g) = sfx_log (applyBufferedJump ?g3)"
    by (simp add: tickKinematics_def Let_def)
  have gate: "(sfx_log (applyBufferedJump g') = sfx_log g' @ [SfxJump]
      \<longleftrightarrow> jump_buf (RUN g') > 0 \<and> coyote (RUN g') > 0)" for g'
    by (auto simp: applyBufferedJump_def)
  have rest: "(jump_buf (RUN g) > 0 \<and> coyote (RUN g) > 0 \<longrightarrow>
        vy (RUN (applyBufferedJump g)) = - jump_v (RUN g)
        \<and> jump_buf (RUN (applyBufferedJump g)) = 0 \<and> coyote (RUN (applyBufferedJump g)) = 0
        \<and> \<not> jump_cut (RUN (applyBufferedJump g)) \<and> \<not> on_ground (RUN (applyBufferedJump g)))
   \<and> (\<not> (jump_buf (RUN g) > 0 \<and> coyote (RUN g) > 0) \<longrightarrow> applyBufferedJump g = g)"
    by (auto simp: applyBufferedJump_def)
  from gate [of g] gate [of ?g3] rest show ?thesis
    unfolding k r3 by blast
qed

text \<open>
  C8. A tick of \<open>dt\<close> in \<open>(0, 0.05]\<close> with a jump-press edge, no release edge and the player on
  the ground ends with \<open>vy = - jump_v + GRAVITY \<times> dt\<close> and \<open>on_ground\<close> false. The run parameters
  are those of a run: a positive coyote time and a jump velocity from \<open>BASE_JUMP_V\<close> up to the
  clamp of 5000.
\<close>

theorem jump_launch_with_gravity:
  assumes "rand_ok g" and "on_ground (RUN g)" and "0 < dt" and "dt \<le> 0.05"
    and "0 < coyote_t (RUN g)" and "BASE_JUMP_V \<le> jump_v (RUN g)" and "jump_v (RUN g) \<le> 5000"
  shows "\<exists>g'. playUpdate dt True jumpHeld False g = Some g'
              \<and> vy (RUN g') = - jump_v (RUN g) + GRAVITY * dt \<and> \<not> on_ground (RUN g')"
proof -
  from playUpdate_Some [OF assms(1)] obtain g' where g': "playUpdate dt True jumpHeld False g = Some g'"
    by blast
  have "GRAVITY * dt \<le> 105" using assms(3,4) by (simp add: GRAVITY_def)
  with assms(6,7) have rng: "- 5000 \<le> - jump_v (RUN g) + GRAVITY * dt"
      "- jump_v (RUN g) + GRAVITY * dt \<le> 0"
    using assms(3) by (simp_all add: BASE_JUMP_V_def GRAVITY_def)
  then have k: "vy (RUN (tickKinematics dt True False g)) = - jump_v (RUN g) + GRAVITY * dt"
    by (simp add: kinematics_jump [OF assms(2,5)] clamp_def MAX_FALL_V_def)
  from assms(3) have dt0: "0 \<le> dt" by simp
  from rng(2) k have neg: "vy (RUN (tickKinematics dt True False g)) \<le> 0" by simp
  from playUpdate_rising [OF g' dt0 neg] k g' show ?thesis by simp
qed

lemma rampSpeed_min:
  assumes "BASE_SPEED \<le> s" and "0 \<le> dt"
  shows "rampSpeed s dt = min MAX_SPEED (s + SPEED_RAMP * dt)"
  using assms by (simp add: rampSpeed_def clamp_def SPEED_RAMP_def min_def)

lemma foldl_rampSpeed:
  assumes "\<forall>dt\<in>set dts. 0 \<le> dt" and "BASE_SPEED \<le> s" and "s \<le> MAX_SPEED"
  shows "foldl rampSpeed s dts = min MAX_SPEED (s + SPEED_RAMP * sum_list dts)"
  using assms
proof (induction dts arbitrary: s)
  case Nil
  then show ?case by simp
next
  case (Cons dt dts)
  have dt: "0 \<le> dt" and rest: "\<forall>d\<in>set dts. 0 \<le> d" using Cons.prems(1) by simp_all
  have sum: "0 \<le> sum_list dts" using rest by (simp add: sum_list_nonneg)
  have step: "rampSpeed s dt = min MAX_SPEED (s + SPEED_RAMP * dt)"
    using Cons.prems(2) dt by (rule rampSpeed_min)
  have lo: "BASE_SPEED \<le> rampSpeed s dt"
    unfolding step using Cons.prems(2) dt by (simp add: SPEED_RAMP_def BASE_SPEED_def MAX_SPEED_def)
  have hi: "rampSpeed s dt \<le> MAX_SPEED" unfolding step by simp
  have "foldl rampSpeed (rampSpeed s dt) dts = min MAX_SPEED (rampSpeed s dt + SPEED_RAMP * sum_list dts)"
    using rest lo hi by (rule Cons.IH)
  also have "\<dots> = min MAX_SPEED (s + SPEED_RAMP * sum_list (dt # dts))"
    unfolding step using sum by (simp add: SPEED_RAMP_def min_def algebra_simps)
  finally show ?case by simp
qed

lemma sum_list_take_mono:
  fixes xs :: "real list"
  assumes "\<forall>v\<in>set xs. 0 \<le> v" and "j \<le> k"
  shows "sum_list (take j xs) \<le> sum_list (take k xs)"
  using assms
proof (induction xs arbitrary: j k)
  case Nil
  then show ?case by simp
next
  case (Cons a xs)
  show ?case
  proof (cases j)
    case 0
    have "\<forall>v\<in>set (take k (a # xs)). 0 \<le> v" using Cons.prems(1) in_set_takeD by fastforce
    then have "0 \<le> sum_list (take k (a # xs))" by (simp add: sum_list_nonneg)
    with 0 show ?thesis by simp
  next
    case (Suc j')
    with Cons.prems(2) obtain k' where k: "k = Suc k'" and le: "j' \<le> k'" by (cases k) simp_all
    from Cons.prems(1) have "\<forall>v\<in>set xs. 0 \<le> v" by simp
    from Cons.IH [OF this le] Suc k show ?thesis by simp
  qed
qed

lemma runTicks_speed:
  assumes "rand_ok g"
  shows "\<exists>g'. runTicks g ins = Some g' \<and> speed (RUN g') = foldl rampSpeed (speed (RUN g)) (map fst ins)"
  using assms
proof (induction ins arbitrary: g)
  case Nil
  then show ?case by simp
next
  case (Cons i ins)
  obtain dt jp jh jr where i: "i = (dt, jp, jh, jr)" by (cases i)
  from playUpdate_Some [OF Cons.prems] obtain g1 where g1: "playUpdate dt jp jh jr g = Some g1"
    by blast
  note a = playUpdate_after_kinematics [OF g1]
  have "rand_ok g1" using Cons.prems a(4) by (simp add: rand_ok_def)
  from Cons.IH [OF this] obtain g' where "runTicks g1 ins = Some g'"
      "speed (RUN g') = foldl rampSpeed (speed (RUN g1)) (map fst ins)" by blast
  then show ?case by (simp add: i g1 a(1))
qed

text \<open>
  C7. From \<open>speed = BASE_SPEED\<close>, after any number \<open>k\<close> of ticks with deltas \<open>dt\<^sub>i \<ge> 0\<close> the speed
  is the iterated \<^verbatim>\<open>clamp(speed + SPEED_RAMP * dt, BASE_SPEED, MAX_SPEED)\<close>, which equals
  \<open>min MAX_SPEED (BASE_SPEED + SPEED_RAMP \<times> T)\<close> for the sum \<open>T\<close> of the \<open>k\<close> deltas; it lies
  between \<open>BASE_SPEED\<close> and \<open>MAX_SPEED\<close> and is at least the speed after any earlier tick.
\<close>

theorem speed_ramp_closed_form:
  assumes "rand_ok g" and "speed (RUN g) = BASE_SPEED" and "\<forall>i\<in>set ins. 0 \<le> fst i"
  shows "\<forall>k\<le>length ins. \<exists>gk. runTicks g (take k ins) = Some gk
           \<and> speed (RUN gk) = foldl rampSpeed BASE_SPEED (map fst (take k ins))
           \<and> speed (RUN gk) = min MAX_SPEED (BASE_SPEED + SPEED_RAMP * sum_list (map fst (take k ins)))
           \<and> BASE_SPEED \<le> speed (RUN gk) \<and> speed (RUN gk) \<le> MAX_SPEED
           \<and> (\<forall>j\<le>k. \<forall>gj. runTicks g (take j ins) = Some gj \<longrightarrow> speed (RUN gj) \<le> speed (RUN gk))"
proof (intro allI impI)
  fix k assume "k \<le> length ins"
  have nn: "\<forall>v\<in>set (map fst ins). 0 \<le> v" using assms(3) by simp
  have closed: "\<exists>gn. runTicks g (take n ins) = Some gn
           \<and> speed (RUN gn) = foldl rampSpeed BASE_SPEED (map fst (take n ins))
           \<and> speed (RUN gn) = min MAX_SPEED (BASE_SPEED + SPEED_RAMP * sum_list (map fst (take n ins)))" for n
  proof -
    from runTicks_speed [OF assms(1), of "take n ins"] obtain gn where
      gn: "runTicks g (take n ins) = Some gn"
          "speed (RUN gn) = foldl rampSpeed BASE_SPEED (map fst (take n ins))"
      unfolding assms(2) by blast
    have "\<forall>dt\<in>set (map fst (take n ins)). 0 \<le> dt" using assms(3) by (auto dest: in_set_takeD)
    from foldl_rampSpeed [OF this, of BASE_SPEED] gn show ?thesis
      by (simp add: BASE_SPEED_def MAX_SPEED_def)
  qed
  from closed [of k] obtain gk where gk: "runTicks g (take k ins) = Some gk"
      "speed (RUN gk) = foldl rampSpeed BASE_SPEED (map fst (take k ins))"
      "speed (RUN gk) = min MAX_SPEED (BASE_SPEED + SPEED_RAMP * sum_list (map fst (take k ins)))"
    by blast
  have "\<forall>v\<in>set (map fst (take k ins)). 0 \<le> v" using assms(3) by (auto dest: in_set_takeD)
  then have "0 \<le> sum_list (map fst (take k ins))" by (intro sum_list_nonneg) blast
  then have bounds: "BASE_SPEED \<le> speed (RUN gk)" "speed (RUN gk) \<le> MAX_SPEED"
    unfolding gk(3) by (simp_all add: BASE_SPEED_def MAX_SPEED_def SPEED_RAMP_def)
  have mono: "speed (RUN gj) \<le> speed (RUN gk)" if "j \<le> k" and "runTicks g (take j ins) = Some gj" for j gj
  proof -
    from closed [of j] that(2)
    have "speed (RUN gj) = min MAX_SPEED (BASE_SPEED + SPEED_RAMP * sum_list (map fst (take j ins)))"
      by simp
    moreover have "sum_list (take j (map fst ins)) \<le> sum_list (take k (map fst ins))"
      using nn that(1) by (rule sum_list_take_mono)
    ultimately show ?thesis unfolding gk(3) by (simp add: take_map SPEED_RAMP_def min_def)
  qed
  from gk bounds mono
  show "\<exists>gk. runTicks g (take k ins) = Some gk
           \<and> speed (RUN gk) = foldl rampSpeed BASE_SPEED (map fst (take k ins))
           \<and> speed (RUN gk) = min MAX_SPEED (BASE_SPEED + SPEED_RAMP * sum_list (map fst (take k ins)))
           \<and> BASE_SPEED \<le> speed (RUN gk) \<and> speed (RUN gk) \<le> MAX_SPEED
           \<and> (\<forall>j\<le>k. \<forall>gj. runTicks g (take j ins) = Some gj \<longrightarrow> speed (RUN gj) \<le> speed (RUN gk))"
    by blast
qed

lemma playUpdate_release_irrelevant:
  assumes "tickKinematics dt jp jr g = tickKinematics dt jp False g"
  shows "playUpdate dt jp jh jr g = playUpdate dt jp jh False g"
  using assms by (simp add: playUpdate_def playUpdateBody_def Let_def)

lemma cut_arc_ignores_release:
  assumes "jump_cut (RUN g)" and "coyote (RUN g) = 0" and "\<forall>i\<in>set ins. 0 \<le> fst i"
    and "staysAirborne g ins"
  shows "runTicks g ins = runTicks g (map noRelease ins)"
  using assms
proof (induction ins arbitrary: g)
  case Nil
  then show ?case by simp
next
  case (Cons i ins)
  obtain dt jp jh jr where i: "i = (dt, jp, jh, jr)" by (cases i)
  from Cons.prems(3) have dt: "0 \<le> dt" and rest: "\<forall>i\<in>set ins. 0 \<le> fst i" by (simp_all add: i)
  from Cons.prems(4) have air: "\<not> on_ground (RUN g)" by (simp add: i)
  note arc = kinematics_cut_arc [OF air Cons.prems(1,2) dt]
  have "tickKinematics dt jp jr g = tickKinematics dt jp False g"
    by (cases jr) (simp_all add: arc(1))
  then have same: "playUpdate dt jp jh jr g = playUpdate dt jp jh False g"
    by (rule playUpdate_release_irrelevant)
  show ?case
  proof (cases "playUpdate dt jp jh jr g")
    case None
    with same show ?thesis by (simp add: i)
  next
    case (Some g1)
    note a = playUpdate_after_kinematics [OF Some]
    have inv: "jump_cut (RUN g1)" "coyote (RUN g1) = 0" by (simp_all add: a(2,3) arc(2,3))
    from Cons.prems(4) Some have "staysAirborne g1 ins" by (simp add: i)
    from Cons.IH [OF inv rest this] Some same show ?thesis by (simp add: i)
  qed
qed

text \<open>
  C9. In the air after a jump (\<open>coyote = 0\<close>, \<open>jump_cut\<close> clear) and still moving up after
  gravity, the tick with the first release edge multiplies \<open>vy\<close> by \<open>JUMP_CUT_MULT\<close> and sets
  \<open>jump_cut\<close>. From then on, as long as the player is off the ground before each tick, a run
  of ticks gives the same states with its release edges as without them.
\<close>

theorem jump_cut_once:
  assumes "rand_ok g" and "\<not> on_ground (RUN g)" and "\<not> jump_cut (RUN g)" and "coyote (RUN g) = 0"
    and "0 \<le> dt" and "- 5000 \<le> vy (RUN g) + GRAVITY * dt" and "vy (RUN g) + GRAVITY * dt < 0"
    and "\<forall>i\<in>set ins. 0 \<le> fst i"
  shows "\<exists>g1. playUpdate dt jumpPressed jumpHeld True g = Some g1
            \<and> vy (RUN g1) = (vy (RUN g) + GRAVITY * dt) * JUMP_CUT_MULT
            \<and> jump_cut (RUN g1) \<and> \<not> on_ground (RUN g1)
            \<and> (staysAirborne g1 ins \<longrightarrow> runTicks g1 ins = runTicks g1 (map noRelease ins))"
proof -
  from playUpdate_Some [OF assms(1)] obtain g1 where g1: "playUpdate dt jumpPressed jumpHeld True g = Some g1"
    by blast
  note cut = kinematics_first_cut [OF assms(2,3,4,5,6,7), of jumpPressed]
  have "(vy (RUN g) + GRAVITY * dt) * JUMP_CUT_MULT \<le> 0"
    using assms(7) by (simp add: JUMP_CUT_MULT_def mult_le_0_iff)
  then have neg: "vy (RUN (tickKinematics dt jumpPressed True g)) \<le> 0" by (simp add: cut(1))
  note rise = playUpdate_rising [OF g1 assms(5) neg]
  note a = playUpdate_after_kinematics [OF g1]
  have inv: "jump_cut (RUN g1)" "coyote (RUN g1) = 0" by (simp_all add: a(2,3) cut(2,3))
  have later: "runTicks g1 ins = runTicks g1 (map noRelease ins)" if "staysAirborne g1 ins"
    using inv assms(8) that by (rule cut_arc_ignores_release)
  from g1 rise cut(1) inv(1) later show ?thesis by simp
qed

lemma tickHazards_dead:
  assumes "\<exists>hz\<in>set (hazards (RUN m)). colliderect (player (RUN m)) hz"
  shows "tickHazards m
     = m\<lparr>SAVE := (SAVE m)\<lparr>money := f64 (money (SAVE m)
                              + of_int \<lfloor>f64 (real_of_int (coins_run (RUN m)) * coin_mul (RUN m))\<rfloor>),
                           best_score := max (best_score (SAVE m)) (score (RUN m))\<rparr>,
          sfx_log := sfx_log m @ [SfxDead], mode := MODE_DEAD\<rparr>"
proof -
  from assms have "find (colliderect (player (RUN m))) (hazards (RUN m)) \<noteq> None"
    by (auto simp: find_None_iff)
  then obtain hz where "find (colliderect (player (RUN m))) (hazards (RUN m)) = Some hz" by blast
  then show ?thesis
    by (simp add: tickHazards_def awardMoneyAndSave_def updateBestScore_def Let_def)
qed


lemma deathGame_RUN:
  "RUN (deathGame mny n lvl) =
     \<lparr>cam_x = 0, speed = 320, score = 0, score_f = 0, coins_run = n,
      player = \<lparr>x = 160, y = 402, w = 44, h = 58\<rparr>, py = 402, vy = 0,
      on_ground = True, coyote = 0, jump_buf = 0,
      jump_v = 880, coyote_t = 1 / 10, coin_mul = f64 (1 + f64 (f64 (1 / 5) * real lvl)), magnet_px = 0,
      platforms = [\<lparr>x = 0, y = 436, w = 2160, h = 24\<rparr>],
      hazards = [\<lparr>x = 170, y = 420, w = 30, h = 40\<rparr>], coins_list = [],
      next_spawn_x = 2300, last_platform_top = 436, last_hazard_x = - 10000000,
      jump_cut = False, jump_time = 0\<rparr>"
  by (simp add: deathGame_def newRunState_def runParamsFromUpgrades_def defaultSaveData_def rect_def
        Let_def consts_defs)

lemma deathGame_rest:
  "SAVE (deathGame mny n lvl) = \<lparr>money = mny, best_score = 5,
      upgrades = \<lparr>up_jump = 0, up_coyote = 0, up_coin_mult = lvl, up_magnet = 0\<rparr>\<rparr>"
  "mode (deathGame mny n lvl) = MODE_PLAY" "paused (deathGame mny n lvl) = False"
  "rand_src (deathGame mny n lvl) = (\<lambda>i. 0)"
  "rand_pos (deathGame mny n lvl) = 0" "sfx_log (deathGame mny n lvl) = []"
  by (simp_all add: deathGame_def defaultSaveData_def Let_def)

lemma death_kinematics:
  "tickKinematics (1 / 64) False False (deathGame mny n lvl)
     = (deathGame mny n lvl)\<lparr>RUN := (RUN (deathGame mny n lvl))\<lparr>speed := 20487 / 64, score_f := 20487 / 204800,
                                        coyote := 1 / 10, vy := 525 / 16\<rparr>\<rparr>"
  by (simp add: tickKinematics_def Let_def updateBestScore_def tickSpeedScore_def tickTimers_def
        applyBufferedJump_def tickGravity_def tickJumpCut_def rampSpeed_def clamp_def
        deathGame_RUN deathGame_rest consts_defs)

lemma death_vertical:
  "tickVertical (1 / 64) ((RUN (deathGame mny n lvl))\<lparr>speed := 20487 / 64, score_f := 20487 / 204800,
                                          coyote := 1 / 10, vy := 525 / 16\<rparr>)
     = (RUN (deathGame mny n lvl))\<lparr>speed := 20487 / 64, score_f := 20487 / 204800, coyote := 1 / 10\<rparr>"
  by (simp add: tickVertical_def collideVerticalSweep_def colliderect_def Let_def deathGame_RUN
        GROUND_Y_def HEIGHT_def GAME_H_def GROUND_H_def
        f64_numeral f64_eval [of "-1"] f64_eval [of "-4"] f64_eval [of 8] rne_def)

lemma death_body:
  "playUpdateBody (1 / 64) False False False (deathGame mny n lvl)
     = Some ((deathGame mny n lvl)\<lparr>RUN := (RUN (deathGame mny n lvl))\<lparr>speed := 20487 / 64,
                 score_f := 20487 / 204800, coyote := 1 / 10, cam_x := 20487 / 4096\<rparr>\<rparr>)"
proof -
  let ?d = "deathGame mny n lvl"
  let ?r6 = "(RUN ?d)\<lparr>speed := 20487 / 64, score_f := 20487 / 204800, coyote := 1 / 10\<rparr>"
  let ?r7 = "?r6\<lparr>cam_x := 20487 / 4096\<rparr>"
  let ?g7 = "?d\<lparr>RUN := ?r7\<rparr>"
  have cam: "advanceCamera (1 / 64) ?r6 = ?r7"
    by (simp add: advanceCamera_def deathGame_RUN)
  have gen: "ensureGenerationAhead ?g7 = Some ?g7"
    by (simp add: ensureGenerationAhead_def generationLoop.simps deathGame_RUN consts_defs)
  have cl: "cleanupLists ?r7 = ?r7"
    by (simp add: cleanupLists_def Let_def deathGame_RUN)
  have mg: "tickMagnet (1 / 64) ?r7 = ?r7"
    by (simp add: tickMagnet_def Let_def deathGame_RUN)
  have cn: "tickCoins ?g7 = ?g7"
    by (simp add: tickCoins_def Let_def colliderect_def deathGame_RUN deathGame_rest)
  have g7: "(tickKinematics (1 / 64) False False ?d)
              \<lparr>RUN := advanceCamera (1 / 64) (tickVertical (1 / 64) (RUN (tickKinematics (1 / 64) False False ?d)))\<rparr>
            = ?g7"
    by (simp add: death_kinematics death_vertical cam)
  have "playUpdateBody (1 / 64) False False False ?d
          = Option.bind (ensureGenerationAhead ?g7)
              (\<lambda>g8. Some (tickCoins (g8\<lparr>RUN := tickMagnet (1 / 64) (cleanupLists (RUN g8))\<rparr>)))"
    unfolding playUpdateBody_def Let_def g7 ..
  also have "\<dots> = Some (tickCoins (?g7\<lparr>RUN := tickMagnet (1 / 64) (cleanupLists (RUN ?g7))\<rparr>))"
    by (simp only: gen bind.bind_lunit)
  also have "?g7\<lparr>RUN := tickMagnet (1 / 64) (cleanupLists (RUN ?g7))\<rparr> = ?g7"
    by (simp add: cl mg)
  finally show ?thesis by (simp only: cn)
qed

lemma death_hit:
  "\<exists>hz\<in>set (hazards (RUN ((deathGame mny n lvl)\<lparr>RUN := (RUN (deathGame mny n lvl))\<lparr>speed := 20487 / 64,
                 score_f := 20487 / 204800, coyote := 1 / 10, cam_x := 20487 / 4096\<rparr>\<rparr>))).
      colliderect (player (RUN ((deathGame mny n lvl)\<lparr>RUN := (RUN (deathGame mny n lvl))\<lparr>speed := 20487 / 64,
                 score_f := 20487 / 204800, coyote := 1 / 10, cam_x := 20487 / 4096\<rparr>\<rparr>))) hz"
  by (simp add: deathGame_RUN colliderect_def f64_numeral)

lemma death_tick:
  "playUpdate (1 / 64) False False False (deathGame mny n lvl)
     = Some ((deathGame mny n lvl)
         \<lparr>RUN := (RUN (deathGame mny n lvl))\<lparr>speed := 20487 / 64, score_f := 20487 / 204800,
                   coyote := 1 / 10, cam_x := 20487 / 4096\<rparr>,
          SAVE := (SAVE (deathGame mny n lvl))
             \<lparr>money := f64 (mny + of_int \<lfloor>f64 (real_of_int n * f64 (1 + f64 (f64 (1 / 5) * real lvl)))\<rfloor>)\<rparr>,
          sfx_log := [SfxDead], mode := MODE_DEAD\<rparr>)"
  unfolding playUpdate_def death_body option.map tickHazards_dead [OF death_hit]
  by (simp add: deathGame_RUN deathGame_rest)

lemma coin_mul_values:
  "f64 (1 + f64 (f64 (1 / 5))) = 5404319552844595 / 4503599627370496"
  "f64 (1 + f64 (f64 (1 / 5) * 2)) = 3152519739159347 / 2251799813685248"
  "f64 (1 + f64 (f64 (1 / 5) * 3)) = 3602879701896397 / 2251799813685248"
  by (simp_all add: f64_eval [of "-3"] f64_eval [of "-2"] f64_eval [of "-1"] f64_eval [of 0] rne_def Let_def)


text \<open>
  C6 as stated fails in the amount. With 45 coins at the second multiplier level the tick pays
  62, where \<open>\<lfloor>45 \<times> 1.4\<rfloor>\<close> is 63: the multiplier is the binary64 number next below 1.4. With 5
  coins at the first level it pays 6, where the floor of the exact product with the stored
  multiplier is 5: the binary64 product rounds up to 6. With the money at \<open>2\<^sup>5\<^sup>3\<close> a payout of
  1 leaves it unchanged.
\<close>

theorem hazard_payout_counterexample:
  "(\<exists>g'. playUpdate (1 / 64) False False False (deathGame 0 45 2) = Some g'
          \<and> mode g' = MODE_DEAD \<and> coins_run (RUN g') = 45
          \<and> coin_mul (RUN g') = 3152519739159347 / 2251799813685248
          \<and> money (SAVE g') = 62)
   \<and> \<lfloor>45 * (1 + 0.20 * 2) :: real\<rfloor> = 63
   \<and> (\<exists>g'. playUpdate (1 / 64) False False False (deathGame 0 5 1) = Some g'
          \<and> mode g' = MODE_DEAD \<and> coins_run (RUN g') = 5
          \<and> coin_mul (RUN g') = 5404319552844595 / 4503599627370496
          \<and> money (SAVE g') = 6)
   \<and> \<lfloor>5 * (5404319552844595 / 4503599627370496) :: real\<rfloor> = 5
   \<and> (\<exists>g'. playUpdate (1 / 64) False False False (deathGame (2 ^ 53) 1 0) = Some g'
          \<and> mode g' = MODE_DEAD \<and> coins_run (RUN g') = 1 \<and> coin_mul (RUN g') = 1
          \<and> money (SAVE g') = 2 ^ 53)"
  unfolding death_tick
  by (simp add: deathGame_RUN deathGame_rest coin_mul_values f64_numeral
        f64_eval [of 2] f64_eval [of 5] f64_eval [of 53] rne_def Let_def)

theorem buffered_jump_gate_witness:
  "(jump_buf (RUN (jumpDemo 0.12 0.10)) > 0 \<and> coyote (RUN (jumpDemo 0.12 0.10)) > 0
      \<and> sfx_log (applyBufferedJump (jumpDemo 0.12 0.10)) = sfx_log (jumpDemo 0.12 0.10) @ [SfxJump]
      \<and> vy (RUN (applyBufferedJump (jumpDemo 0.12 0.10))) = - 880
      \<and> jump_buf (RUN (applyBufferedJump (jumpDemo 0.12 0.10))) = 0
      \<and> coyote (RUN (applyBufferedJump (jumpDemo 0.12 0.10))) = 0
      \<and> \<not> on_ground (RUN (applyBufferedJump (jumpDemo 0.12 0.10))))
   \<and> (\<not> (jump_buf (RUN (jumpDemo 0 0.10)) > 0 \<and> coyote (RUN (jumpDemo 0 0.10)) > 0)
      \<and> applyBufferedJump (jumpDemo 0 0.10) = jumpDemo 0 0.10)
   \<and> (\<not> (jump_buf (RUN (jumpDemo 0.12 0)) > 0 \<and> coyote (RUN (jumpDemo 0.12 0)) > 0)
      \<and> applyBufferedJump (jumpDemo 0.12 0) = jumpDemo 0.12 0)"
  using buffered_jump_gate [of "jumpDemo 0.12 0.10"] buffered_jump_gate [of "jumpDemo 0 0.10"]
    buffered_jump_gate [of "jumpDemo 0.12 0"]
  by (simp add: jumpDemo_def freshGame_def newRunState_default)

theorem jump_launch_with_gravity_witness:
  "rand_ok (freshGame (\<lambda>i. 0)) \<and> on_ground (RUN (freshGame (\<lambda>i. 0)))
   \<and> (0::real) < 1 / 60 \<and> (1::real) / 60 \<le> 0.05
   \<and> 0 < coyote_t (RUN (freshGame (\<lambda>i. 0)))
   \<and> BASE_JUMP_V \<le> jump_v (RUN (freshGame (\<lambda>i. 0))) \<and> jump_v (RUN (freshGame (\<lambda>i. 0))) \<le> 5000
   \<and> (\<exists>g'. playUpdate (1 / 60) True False False (freshGame (\<lambda>i. 0)) = Some g'
          \<and> vy (RUN g') = - 845 \<and> \<not> on_ground (RUN g'))"
  using jump_launch_with_gravity [of "freshGame (\<lambda>i. 0)" "1 / 60" False]
  by (simp add: freshGame_def newRunState_default rand_ok_def BASE_JUMP_V_def GRAVITY_def)

theorem jump_cut_once_witness:
  "rand_ok risingGame \<and> \<not> on_ground (RUN risingGame) \<and> \<not> jump_cut (RUN risingGame)
   \<and> coyote (RUN risingGame) = 0 \<and> (0::real) \<le> 1 / 60
   \<and> - 5000 \<le> vy (RUN risingGame) + GRAVITY * (1 / 60) \<and> vy (RUN risingGame) + GRAVITY * (1 / 60) < 0
   \<and> (0::real) \<le> fst (1 / 60 :: real, False, False, True)
   \<and> (\<exists>g1. playUpdate (1 / 60) False False True risingGame = Some g1
          \<and> vy (RUN g1) = - 810 * JUMP_CUT_MULT
          \<and> staysAirborne g1 [(1 / 60, False, False, True)]
          \<and> runTicks g1 [(1 / 60, False, False, True)] = runTicks g1 [(1 / 60, False, False, False)])"
proof -
  have pre: "rand_ok risingGame" "\<not> on_ground (RUN risingGame)" "\<not> jump_cut (RUN risingGame)"
    "coyote (RUN risingGame) = 0" "(0::real) \<le> 1 / 60"
    "- 5000 \<le> vy (RUN risingGame) + GRAVITY * (1 / 60)" "vy (RUN risingGame) + GRAVITY * (1 / 60) < 0"
    "\<forall>i\<in>set [(1 / 60 :: real, False, False, True)]. 0 \<le> fst i"
    by (simp_all add: risingGame_def freshGame_def newRunState_default rand_ok_def GRAVITY_def)
  from jump_cut_once [OF pre, of False False] obtain g1 where
    g1: "playUpdate (1 / 60) False False True risingGame = Some g1"
      "vy (RUN g1) = (vy (RUN risingGame) + GRAVITY * (1 / 60)) * JUMP_CUT_MULT"
      "\<not> on_ground (RUN g1)"
      "staysAirborne g1 [(1 / 60, False, False, True)] \<longrightarrow>
         runTicks g1 [(1 / 60, False, False, True)] = runTicks g1 (map noRelease [(1 / 60, False, False, True)])"
    by blast
  have air: "staysAirborne g1 [(1 / 60, False, False, True)]"
    using g1(3) by (simp split: option.splits)
  have v: "vy (RUN g1) = - 810 * JUMP_CUT_MULT"
    unfolding g1(2) by (simp add: risingGame_def freshGame_def newRunState_default GRAVITY_def)
  from g1(4) air have "runTicks g1 [(1 / 60, False, False, True)] = runTicks g1 [(1 / 60, False, False, False)]"
    by simp
  with pre g1(1) v air show ?thesis by auto
qed

theorem speed_ramp_closed_form_witness:
  "rand_ok (freshGame (\<lambda>i. 0)) \<and> speed (RUN (freshGame (\<lambda>i. 0))) = BASE_SPEED
   \<and> (0::real) \<le> fst (1 / 60 :: real, False, False, False)
   \<and> (0::real) \<le> fst (1 / 20 :: real, True, True, False)
   \<and> (2::nat) \<le> length [(1 / 60 :: real, False, False, False), (1 / 20, True, True, False)]
   \<and> (\<exists>gk. runTicks (freshGame (\<lambda>i. 0)) [(1 / 60, False, False, False), (1 / 20, True, True, False)] = Some gk
          \<and> speed (RUN gk) = 320 + 7 * (1 / 60 + 1 / 20)
          \<and> speed (RUN (freshGame (\<lambda>i. 0))) \<le> speed (RUN gk))"
proof -
  let ?g = "freshGame (\<lambda>i. 0)"
  let ?ins = "[(1 / 60 :: real, False, False, False), (1 / 20, True, True, False)]"
  have pre: "rand_ok ?g" "speed (RUN ?g) = BASE_SPEED" "\<forall>i\<in>set ?ins. 0 \<le> fst i"
    by (simp_all add: freshGame_def newRunState_default rand_ok_def BASE_SPEED_def)
  have len: "(2::nat) \<le> length ?ins" by simp
  from speed_ramp_closed_form [OF pre, rule_format, OF len] obtain gk where
    gk: "runTicks ?g (take 2 ?ins) = Some gk"
      "speed (RUN gk) = min MAX_SPEED (BASE_SPEED + SPEED_RAMP * sum_list (map fst (take 2 ?ins)))"
      "\<forall>j\<le>2. \<forall>gj. runTicks ?g (take j ?ins) = Some gj \<longrightarrow> speed (RUN gj) \<le> speed (RUN gk)"
    by blast
  from gk(3) have "speed (RUN ?g) \<le> speed (RUN gk)" by (auto dest: spec [of _ 0])
  moreover from gk(2) have "speed (RUN gk) = 320 + 7 * (1 / 60 + 1 / 20)"
    by (simp add: MAX_SPEED_def BASE_SPEED_def SPEED_RAMP_def)
  moreover from gk(1) have "runTicks ?g ?ins = Some gk" by simp
  ultimately show ?thesis using pre len by auto
qed

subsection \<open>States of a run\<close>

text \<open>
  \<open>run_inv\<close> holds after \<^verbatim>\<open>resetRun\<close> and is kept by every \<^verbatim>\<open>playUpdate\<close>; the jump parameters
  are fixed for the run by \<^verbatim>\<open>newRunState\<close>. These are the side conditions under which the sweep
  and the jump are used above.
\<close>

lemma floor_of_Ints: "v \<in> \<int> \<Longrightarrow> of_int \<lfloor>v\<rfloor> = (v::real)"
  by (auto simp: Ints_def)

lemma sweepSteps_sync:
  assumes "y pl = of_int \<lfloor>pyf\<rfloor>" and "h pl \<in> \<int>" and "\<forall>p\<in>set ps. y p \<in> \<int> \<and> h p \<in> \<int>"
  shows "y (fst (sweepSteps n step pl pyf ps)) = of_int \<lfloor>pyFloat (snd (sweepSteps n step pl pyf ps))\<rfloor>
         \<and> x (fst (sweepSteps n step pl pyf ps)) = x pl
         \<and> w (fst (sweepSteps n step pl pyf ps)) = w pl
         \<and> h (fst (sweepSteps n step pl pyf ps)) = h pl"
  using assms
proof (induction n arbitrary: pl pyf)
  case 0
  then show ?case by simp
next
  case (Suc n)
  let ?a = "f64 (pyf + step)"
  let ?pl' = "pl\<lparr>y := of_int \<lfloor>?a\<rfloor>\<rparr>"
  have IH: "y (fst (sweepSteps n step ?pl' ?a ps))
              = of_int \<lfloor>pyFloat (snd (sweepSteps n step ?pl' ?a ps))\<rfloor>
            \<and> x (fst (sweepSteps n step ?pl' ?a ps)) = x pl
            \<and> w (fst (sweepSteps n step ?pl' ?a ps)) = w pl
            \<and> h (fst (sweepSteps n step ?pl' ?a ps)) = h pl"
    using Suc.IH [of ?pl' ?a] Suc.prems by simp
  have land: "of_int \<lfloor>f64 (y p - h pl)\<rfloor> = f64 (y p - h pl)" if "p \<in> set ps" for p
    using that Suc.prems(2,3) by (intro floor_of_Ints f64_Ints) auto
  have bump: "of_int \<lfloor>f64 (y p + h p)\<rfloor> = f64 (y p + h p)" if "p \<in> set ps" for p
    using that Suc.prems(3) by (intro floor_of_Ints f64_Ints) auto
  have mem: "q \<in> set ps" if "find P ps = Some q" for P q
    using that by (auto simp: find_Some_iff)
  show ?case
  proof (cases "0 < step")
    case True
    show ?thesis
    proof (cases "find (\<lambda>p. colliderect ?pl' p \<and> f64 (y pl + h pl) \<le> y p) ps")
      case None
      with True IH show ?thesis by (simp add: Let_def)
    next
      case (Some q)
      with True show ?thesis by (simp add: Let_def land [OF mem [OF Some]])
    qed
  next
    case False
    show ?thesis
    proof (cases "find (\<lambda>p. colliderect ?pl' p \<and> f64 (y p + h p) \<le> y pl) ps")
      case None
      with False IH show ?thesis by (simp add: Let_def)
    next
      case (Some q)
      with False show ?thesis by (simp add: Let_def bump [OF mem [OF Some]])
    qed
  qed
qed

lemma collideVerticalSweep_sync:
  assumes "y pl = of_int \<lfloor>pyf\<rfloor>" and "h pl \<in> \<int>" and "\<forall>p\<in>set ps. y p \<in> \<int> \<and> h p \<in> \<int>"
  shows "y (fst (collideVerticalSweep pl pyf dy ps)) = of_int \<lfloor>pyFloat (snd (collideVerticalSweep pl pyf dy ps))\<rfloor>
         \<and> x (fst (collideVerticalSweep pl pyf dy ps)) = x pl
         \<and> w (fst (collideVerticalSweep pl pyf dy ps)) = w pl
         \<and> h (fst (collideVerticalSweep pl pyf dy ps)) = h pl"
  using sweepSteps_sync [OF assms] assms(1)
  by (simp add: collideVerticalSweep_def Let_def)

lemma tickVertical_inv:
  assumes "run_inv r"
  shows "run_inv (tickVertical dt r)"
proof -
  let ?pl0 = "(player r)\<lparr>x := of_int \<lfloor>f64 (cam_x r + 160)\<rfloor>\<rparr>"
  obtain pl1 sw where sw: "collideVerticalSweep ?pl0 (py r) (f64 (vy r * dt)) (platforms r) = (pl1, sw)"
    by (cases "collideVerticalSweep ?pl0 (py r) (f64 (vy r * dt)) (platforms r)")
  from assms have a: "y ?pl0 = of_int \<lfloor>py r\<rfloor>" "h ?pl0 \<in> \<int>"
      "\<forall>p\<in>set (platforms r). y p \<in> \<int> \<and> h p \<in> \<int>"
    by (simp_all add: run_inv_def)
  from assms have b: "w (player r) = 44" "h (player r) = 58"
      "\<forall>p\<in>set (platforms r). x p \<in> \<int> \<and> y p \<in> \<int> \<and> w p \<in> \<int> \<and> h p \<in> \<int> \<and> 18 \<le> h p
          \<and> x p + w p + 140 \<le> next_spawn_x r"
      "sorted_wrt (\<lambda>p q. x p + w p + 140 \<le> x q) (platforms r)" "next_spawn_x r \<in> \<int>"
    by (simp_all add: run_inv_def)
  have s: "y pl1 = of_int \<lfloor>pyFloat sw\<rfloor>" "w pl1 = 44" "h pl1 = 58"
    using collideVerticalSweep_sync [OF a(1,2,3), of "f64 (vy r * dt)", unfolded sw] b(1,2) by simp_all
  have g: "f64 (GROUND_Y - 58) = 402"
    by (simp add: GROUND_Y_def HEIGHT_def GAME_H_def GROUND_H_def f64_numeral)
  show ?thesis
    unfolding tickVertical_def Let_def sw prod.case
    using s b(3,4,5) by (simp add: run_inv_def g)
qed

lemma chunkPlatform_size:
  assumes "rand_ok g" and "chunkPlatform g = Some (pf, g4)"
  shows "h pf \<in> \<int>" and "18 \<le> h pf" and "w pf \<in> \<int>" and "x pf \<in> \<int>"
proof -
  from assms(2) obtain ty where pf: "pf = rect (of_int \<lfloor>next_spawn_x (RUN g)\<rfloor>) (of_int \<lfloor>ty::real\<rfloor>)
        (of_int \<lfloor>fst (randi PLATFORM_MIN_W PLATFORM_MAX_W g)\<rfloor>)
        (of_int \<lfloor>fst (randi PLATFORM_MIN_H PLATFORM_MAX_H (snd (randi PLATFORM_MIN_W PLATFORM_MAX_W g)))\<rfloor>)"
    unfolding chunkPlatform_def Let_def case_prod_beta
    by (auto split: option.splits simp del: randi_simps(1))
  show "h pf \<in> \<int>" "w pf \<in> \<int>" "x pf \<in> \<int>" by (simp_all add: pf rect_def del: randi_simps(1))
  have "0 \<le> \<lfloor>rand_src g (Suc (rand_pos g)) * (PLATFORM_MAX_H - PLATFORM_MIN_H + 1)\<rfloor>"
    using assms(1) by (rule rand_floor_lower) (simp add: PLATFORM_MAX_H_def PLATFORM_MIN_H_def)
  then show "18 \<le> h pf"
    by (simp add: pf rect_def PLATFORM_MIN_H_def)
qed

lemma spawnChunk_platforms:
  assumes "rand_ok g" and "spawnChunk g = Some g'"
  shows "\<exists>pf. platforms (RUN g') = platforms (RUN g) @ [pf] \<and> x pf = of_int \<lfloor>next_spawn_x (RUN g)\<rfloor>
            \<and> x pf \<in> \<int> \<and> y pf \<in> \<int> \<and> w pf \<in> \<int> \<and> h pf \<in> \<int> \<and> 18 \<le> h pf
            \<and> x pf + w pf + 140 \<le> next_spawn_x (RUN g')"
proof -
  from assms(2) obtain pf g4 g6 where p: "chunkPlatform g = Some (pf, g4)"
    and g6: "g6 = chunkCoins pf (chunkHazard (speed (RUN g)) (cam_x (RUN g)) (next_spawn_x (RUN g)) pf g4)"
    and g': "g' = g6\<lparr>rand_pos := Suc (rand_pos g6),
                  RUN := (RUN g6)\<lparr>next_spawn_x := x pf + w pf
                                       + (MIN_GAP + of_int \<lfloor>rand_src g6 (rand_pos g6) * (MAX_GAP - MIN_GAP + 1)\<rfloor>),
                                    last_platform_top := y pf\<rparr>\<rparr>"
    by (rule spawnChunk_SomeD)
  define g5 where "g5 = chunkHazard (speed (RUN g)) (cam_x (RUN g)) (next_spawn_x (RUN g)) pf g4"
  obtain n L hs where hz: "g5 = g4\<lparr>rand_pos := n, RUN := (RUN g4)\<lparr>last_hazard_x := L, hazards := hs\<rparr>\<rparr>"
    unfolding g5_def using chunkHazard_shape by blast
  obtain n' cs where cn: "chunkCoins pf g5 = g5\<lparr>rand_pos := n', RUN := (RUN g5)\<lparr>coins_list := cs\<rparr>\<rparr>"
    using chunkCoins_shape by blast
  have "platforms (RUN g5) = platforms (RUN g) @ [pf]"
    by (simp add: hz chunkPlatform_SomeD(1) [OF p])
  then have "platforms (RUN g6) = platforms (RUN g) @ [pf]"
    unfolding g6 g5_def [symmetric] by (simp add: cn)
  then have pl: "platforms (RUN g') = platforms (RUN g) @ [pf]"
    by (simp add: g')
  have "rand_src g5 = rand_src g"
    by (simp add: hz chunkPlatform_SomeD(1) [OF p])
  moreover have "rand_src g6 = rand_src g5"
    unfolding g6 g5_def [symmetric] cn by simp
  ultimately have "rand_ok g6" using assms(1) by (simp add: rand_ok_def)
  then have "0 \<le> \<lfloor>rand_src g6 (rand_pos g6) * (MAX_GAP - MIN_GAP + 1)\<rfloor>"
    by (rule rand_floor_lower) (simp add: MAX_GAP_def MIN_GAP_def)
  then have fr: "x pf + w pf + 140 \<le> next_spawn_x (RUN g')"
    by (simp add: g' MIN_GAP_def)
  from pl fr chunkPlatform_SomeD(2,4) [OF p] chunkPlatform_size [OF assms(1) p] show ?thesis by blast
qed

lemma spawnChunk_inv:
  assumes "rand_ok g" and "run_inv (RUN g)" and "spawnChunk g = Some g'"
  shows "run_inv (RUN g')"
proof -
  from spawnChunk_platforms [OF assms(1,3)] obtain pf where
    pf: "platforms (RUN g') = platforms (RUN g) @ [pf]" "x pf = of_int \<lfloor>next_spawn_x (RUN g)\<rfloor>"
      "x pf \<in> \<int>" "y pf \<in> \<int>" "w pf \<in> \<int>" "h pf \<in> \<int>" "18 \<le> h pf"
      "x pf + w pf + 140 \<le> next_spawn_x (RUN g')" by blast
  from assms(2) have i: "y (player (RUN g)) = of_int \<lfloor>py (RUN g)\<rfloor>"
      "w (player (RUN g)) = 44" "h (player (RUN g)) = 58"
      "\<forall>p\<in>set (platforms (RUN g)). x p \<in> \<int> \<and> y p \<in> \<int> \<and> w p \<in> \<int> \<and> h p \<in> \<int> \<and> 18 \<le> h p
          \<and> x p + w p + 140 \<le> next_spawn_x (RUN g)"
      "sorted_wrt (\<lambda>p q. x p + w p + 140 \<le> x q) (platforms (RUN g))" "next_spawn_x (RUN g) \<in> \<int>"
    by (simp_all add: run_inv_def)
  have xf: "x pf = next_spawn_x (RUN g)"
    unfolding pf(2) using i(6) by (rule floor_of_Ints)
  from spawnChunk_frame [OF assms(3)]
  have k: "player (RUN g') = player (RUN g)" "py (RUN g') = py (RUN g)"
    by (simp_all add: outside_generator_def same_kinematics_def)
  have up: "next_spawn_x (RUN g) \<le> next_spawn_x (RUN g')"
    using spawnChunk_frontier(1) [OF assms(1,3)] i(6)
    by (simp add: floor_of_Ints PLATFORM_MIN_W_def MIN_GAP_def)
  have old: "x p \<in> \<int> \<and> y p \<in> \<int> \<and> w p \<in> \<int> \<and> h p \<in> \<int> \<and> 18 \<le> h p
          \<and> x p + w p + 140 \<le> next_spawn_x (RUN g')" if "p \<in> set (platforms (RUN g))" for p
    using i(4) that up by fastforce
  have srt: "sorted_wrt (\<lambda>p q. x p + w p + 140 \<le> x q) (platforms (RUN g) @ [pf])"
    using i(4,5) by (simp add: sorted_wrt_append xf)
  show ?thesis
    unfolding run_inv_def k pf(1)
    using i(1,2,3) old pf(3-8) srt spawnChunk_frontier(2) [OF assms(1,3)] by auto
qed

lemma generationLoop_inv:
  assumes "generationLoop camX g = Some g'"
  shows "rand_ok g \<longrightarrow> run_inv (RUN g) \<longrightarrow> run_inv (RUN g')"
proof (rule generationLoop.raw_induct
         [where P = "\<lambda>c g g'. rand_ok g \<longrightarrow> run_inv (RUN g) \<longrightarrow> run_inv (RUN g')", OF _ assms],
       goal_cases)
  case (1 loop camX g g')
  show ?case
  proof (cases "next_spawn_x (RUN g) < camX + WIDTH * 2.2")
    case False
    with 1(2) show ?thesis by simp
  next
    case True
    with 1(2) have "Option.bind (spawnChunk g) (loop camX) = Some g'" by simp
    then obtain g1 where g1: "spawnChunk g = Some g1" and rest: "loop camX g1 = Some g'"
      by (cases "spawnChunk g") simp_all
    show ?thesis
    proof (intro impI)
      assume ok: "rand_ok g" and inv: "run_inv (RUN g)"
      have "rand_ok g1" using rand_ok_outside [OF spawnChunk_frame [OF g1]] ok by simp
      moreover have "run_inv (RUN g1)" by (rule spawnChunk_inv [OF ok inv g1])
      ultimately show "run_inv (RUN g')" using 1(1) [OF rest] by blast
    qed
  qed
qed

lemma after_generation_inv:
  assumes "run_inv (RUN g8)"
  shows "run_inv (RUN (tickCoins (g8\<lparr>RUN := tickMagnet dt (cleanupLists (RUN g8))\<rparr>)))"
proof -
  define r9 where "r9 = cleanupLists (RUN g8)"
  have c: "player r9 = player (RUN g8)" "py r9 = py (RUN g8)" "next_spawn_x r9 = next_spawn_x (RUN g8)"
      "platforms r9 = filter (\<lambda>q. cam_x (RUN g8) - 280 \<le> x q + w q) (platforms (RUN g8))"
    by (auto simp: r9_def cleanupLists_def Let_def)
  obtain cs' where m: "tickMagnet dt r9 = r9\<lparr>coins_list := cs'\<rparr>"
    using tickMagnet_shape by blast
  define g9 where "g9 = g8\<lparr>RUN := tickMagnet dt r9\<rparr>"
  obtain n cs'' lg where t: "tickCoins g9 = g9\<lparr>RUN := (RUN g9)\<lparr>coins_run := n, coins_list := cs''\<rparr>, sfx_log := lg\<rparr>"
    using tickCoins_shape by blast
  have 9: "RUN g9 = r9\<lparr>coins_list := cs'\<rparr>" by (simp add: g9_def m)
  have "run_inv r9" using assms unfolding run_inv_def c by (auto intro: sorted_wrt_filter)
  then have "run_inv (RUN (tickCoins g9))"
    unfolding t by (simp add: 9 run_inv_def)
  then show ?thesis by (simp add: g9_def r9_def)
qed

lemma playUpdate_inv:
  assumes "rand_ok g" and "run_inv (RUN g)" and "playUpdate dt jp jh jr g = Some g'"
  shows "run_inv (RUN g')"
proof -
  let ?g5 = "tickKinematics dt jp jr g"
  let ?g7 = "?g5\<lparr>RUN := advanceCamera dt (tickVertical dt (RUN ?g5))\<rparr>"
  from assms(3) obtain m where m: "playUpdateBody dt jp jh jr g = Some m" and g': "g' = tickHazards m"
    by (auto simp: playUpdate_def)
  from playUpdateBody_SomeD [OF m] obtain g8 where
    g8: "ensureGenerationAhead ?g7 = Some g8"
    and m': "m = tickCoins (g8\<lparr>RUN := tickMagnet dt (cleanupLists (RUN g8))\<rparr>)" by blast
  obtain sf sc jb cy jc jt v og lg where k: "?g5
      = g\<lparr>RUN := (RUN g)\<lparr>speed := rampSpeed (speed (RUN g)) dt, score_f := sf, score := sc,
                           jump_buf := jb, coyote := cy,
                           jump_cut := jc, jump_time := jt, vy := v, on_ground := og\<rparr>,
           SAVE := (SAVE g)\<lparr>best_score := max (best_score (SAVE g)) sc\<rparr>, sfx_log := lg\<rparr>"
    using tickKinematics_shape [of dt jp jr g] by (elim exE) (rule that, assumption)
  have "run_inv (RUN ?g5)" using assms(2) by (simp add: k run_inv_def)
  then have "run_inv (tickVertical dt (RUN ?g5))" by (rule tickVertical_inv)
  then have 7: "run_inv (RUN ?g7)" by (simp add: advanceCamera_def run_inv_def)
  have "rand_src ?g5 = rand_src g" by (simp add: k)
  then have ok: "rand_ok ?g7" using assms(1) by (simp add: rand_ok_def)
  from g8 have "generationLoop (cam_x (RUN ?g7)) ?g7 = Some g8"
    by (simp add: ensureGenerationAhead_def)
  from generationLoop_inv [OF this] ok 7 have "run_inv (RUN g8)" by blast
  then have "run_inv (RUN m)" unfolding m' by (rule after_generation_inv)
  then show ?thesis by (simp add: g' tickHazards_keeps(1))
qed

lemma newRunState_inv: "run_inv (newRunState sv)"
  by (simp add: run_inv_def newRunState_def Let_def rect_def consts_defs)

text \<open>
  So in every call of the sweep in a run the rectangle of the player is in step with
  \<^verbatim>\<open>RUN.py\<close>, the coordinates are whole numbers, the heights of the player and of a platform
  together exceed 7, and the player overlaps at most one platform of the list horizontally.
\<close>

lemma run_inv_sweep_call:
  assumes "run_inv r" and "P \<in> set (platforms r)"
  shows "y ((player r)\<lparr>x := of_int \<lfloor>f64 (cam_x r + 160)\<rfloor>\<rparr>) = of_int \<lfloor>py r\<rfloor>"
    and "x ((player r)\<lparr>x := of_int \<lfloor>f64 (cam_x r + 160)\<rfloor>\<rparr>) \<in> \<int>
         \<and> y ((player r)\<lparr>x := of_int \<lfloor>f64 (cam_x r + 160)\<rfloor>\<rparr>) \<in> \<int>
         \<and> w ((player r)\<lparr>x := of_int \<lfloor>f64 (cam_x r + 160)\<rfloor>\<rparr>) = 44
         \<and> h ((player r)\<lparr>x := of_int \<lfloor>f64 (cam_x r + 160)\<rfloor>\<rparr>) = 58"
    and "x P \<in> \<int> \<and> y P \<in> \<int> \<and> w P \<in> \<int> \<and> h P \<in> \<int>"
    and "h ((player r)\<lparr>x := of_int \<lfloor>f64 (cam_x r + 160)\<rfloor>\<rparr>) + h P > 7"
    and "overlaps_x ((player r)\<lparr>x := of_int \<lfloor>f64 (cam_x r + 160)\<rfloor>\<rparr>) P \<Longrightarrow>
         \<forall>Q\<in>set (platforms r). Q \<noteq> P \<longrightarrow>
            \<not> overlaps_x ((player r)\<lparr>x := of_int \<lfloor>f64 (cam_x r + 160)\<rfloor>\<rparr>) Q"
proof -
  let ?pl = "(player r)\<lparr>x := of_int \<lfloor>f64 (cam_x r + 160)\<rfloor>\<rparr>"
  from assms(1) have i: "y (player r) = of_int \<lfloor>py r\<rfloor>" "w (player r) = 44" "h (player r) = 58"
      "\<forall>p\<in>set (platforms r). x p \<in> \<int> \<and> y p \<in> \<int> \<and> w p \<in> \<int> \<and> h p \<in> \<int> \<and> 18 \<le> h p
          \<and> x p + w p + 140 \<le> next_spawn_x r"
      "sorted_wrt (\<lambda>p q. x p + w p + 140 \<le> x q) (platforms r)"
    by (simp_all add: run_inv_def)
  show "y ?pl = of_int \<lfloor>py r\<rfloor>" by (simp add: i(1))
  show "x ?pl \<in> \<int> \<and> y ?pl \<in> \<int> \<and> w ?pl = 44 \<and> h ?pl = 58" by (simp add: i(1,2,3))
  show "x P \<in> \<int> \<and> y P \<in> \<int> \<and> w P \<in> \<int> \<and> h P \<in> \<int>" using i(4) assms(2) by blast
  show "h ?pl + h P > 7" using i(3,4) assms(2) by fastforce
  show "\<forall>Q\<in>set (platforms r). Q \<noteq> P \<longrightarrow> \<not> overlaps_x ?pl Q" if o: "overlaps_x ?pl P"
  proof (intro ballI impI notI)
    fix Q assume Q: "Q \<in> set (platforms r)" "Q \<noteq> P" "overlaps_x ?pl Q"
    from assms(2) Q(1,2) obtain i j where ij: "i < length (platforms r)" "j < length (platforms r)"
        "platforms r ! i = P" "platforms r ! j = Q" "i \<noteq> j"
      by (metis in_set_conv_nth)
    have sep: "x (platforms r ! a) + w (platforms r ! a) + 140 \<le> x (platforms r ! b)"
      if "a < b" "b < length (platforms r)" for a b
      using i(5) that by (simp add: sorted_wrt_iff_nth_less)
    from ij(5) consider "i < j" | "j < i" by linarith
    then show False
    proof cases
      case 1
      from sep [OF 1 ij(2)] o Q(3) show False
        by (simp add: ij(3,4) overlaps_x_def i(2))
    next
      case 2
      from sep [OF 2 ij(1)] o Q(3) show False
        by (simp add: ij(3,4) overlaps_x_def i(2))
    qed
  qed
qed

lemma resetRun_inv:
  assumes "rand_ok g" and "resetRun g = Some g'"
  shows "run_inv (RUN g')"
proof -
  let ?g0 = "g\<lparr>RUN := newRunState (SAVE g)\<rparr>"
  from assms(2) have "generationLoop (cam_x (RUN ?g0)) ?g0 = Some g'"
    by (simp add: resetRun_def ensureGenerationAhead_def)
  from generationLoop_inv [OF this] assms(1) newRunState_inv [of "SAVE g"]
  show ?thesis by (simp add: rand_ok_def)
qed

lemma newRunState_params:
  assumes "up_jump (upgrades sv) \<le> 6"
  shows "BASE_JUMP_V \<le> jump_v (newRunState sv)" and "jump_v (newRunState sv) \<le> 5000"
    and "0 < coyote_t (newRunState sv)"
proof -
  have j: "jump_v (newRunState sv) = BASE_JUMP_V + 50 * real (up_jump (upgrades sv))"
    and c: "coyote_t (newRunState sv) = BASE_COYOTE + 0.02 * real (up_coyote (upgrades sv))"
    by (simp_all add: newRunState_def runParamsFromUpgrades_def Let_def)
  from assms have "real (up_jump (upgrades sv)) \<le> 6" by simp
  then show "BASE_JUMP_V \<le> jump_v (newRunState sv)" and "jump_v (newRunState sv) \<le> 5000"
    by (simp_all add: j BASE_JUMP_V_def)
  show "0 < coyote_t (newRunState sv)"
    unfolding c BASE_COYOTE_def by (rule add_pos_nonneg) simp_all
qed

lemma playUpdate_keeps_params:
  assumes "playUpdate dt jp jh jr g = Some g'"
  shows "jump_v (RUN g') = jump_v (RUN g)" and "coyote_t (RUN g') = coyote_t (RUN g)"
proof -
  let ?k = "tickKinematics dt jp jr g"
  from assms obtain m where m: "playUpdateBody dt jp jh jr g = Some m" and g': "g' = tickHazards m"
    by (auto simp: playUpdate_def)
  note fr = playUpdateBody_frame [OF m]
  obtain p' y' v' o' where v: "tickVertical dt (RUN ?k) = (RUN ?k)\<lparr>player := p', on_ground := o', py := y', vy := v'\<rparr>"
    using tickVertical_shape by blast
  obtain sf sc jb cy jc jt v og lg where k: "?k
      = g\<lparr>RUN := (RUN g)\<lparr>speed := rampSpeed (speed (RUN g)) dt, score_f := sf, score := sc,
                           jump_buf := jb, coyote := cy,
                           jump_cut := jc, jump_time := jt, vy := v, on_ground := og\<rparr>,
           SAVE := (SAVE g)\<lparr>best_score := max (best_score (SAVE g)) sc\<rparr>, sfx_log := lg\<rparr>"
    using tickKinematics_shape [of dt jp jr g] by (elim exE) (rule that, assumption)
  have "jump_v (RUN ?k) = jump_v (RUN g)" "coyote_t (RUN ?k) = coyote_t (RUN g)"
    unfolding k by simp_all
  moreover from fr(1) have "jump_v (RUN m) = jump_v (RUN ?k)" "coyote_t (RUN m) = coyote_t (RUN ?k)"
    unfolding v by (simp_all add: same_kinematics_def advanceCamera_def)
  ultimately show "jump_v (RUN g') = jump_v (RUN g)" and "coyote_t (RUN g') = coyote_t (RUN g)"
    by (simp_all add: g' tickHazards_keeps)
qed

end
